theory Spec2Isabelle
  imports Main "HOL-Library.Word" "HOL-Library.AList"
begin

unbundle bit_operations_syntax

section \<open>JavaScript values used by the bridge client\<close>

text \<open>
  The value \<open>JSON.parse\<close> returns. An object is the list of its own properties, each key
  once; \<open>JNum\<close> carries a number, which the client passes on and never inspects.
\<close>

datatype json =
    JNull
  | JBool bool
  | JNum int
  | JStr string
  | JArr "json list"
  | JObj "(string \<times> json) list"

datatype js_error = TypeError | RangeError

datatype completion = Normal | Throw js_error

text \<open>
  \<open>name in v\<close> for the two names the client tests, \<open>event\<close> and
  \<open>error\<close>, neither of which is defined on \<open>Object.prototype\<close> or
  \<open>Array.prototype\<close>. On a primitive the operator throws a TypeError (\<open>None\<close>).
\<close>

fun has_prop :: "string \<Rightarrow> json \<Rightarrow> bool option" where
  "has_prop k (JObj kvs) = Some (map_of kvs k \<noteq> None)"
| "has_prop k (JArr xs) = Some False"
| "has_prop k v = None"

text \<open>
  \<open>v.name\<close> on a value that is not null, for the names \<open>event\<close>, \<open>data\<close>, \<open>id\<close>,
  \<open>error\<close>, \<open>result\<close>, \<open>code\<close> and \<open>message\<close>; \<open>None\<close> is \<open>undefined\<close>.
\<close>

fun get_prop :: "string \<Rightarrow> json \<Rightarrow> json option" where
  "get_prop k (JObj kvs) = map_of kvs k"
| "get_prop k v = None"

text \<open>\<open>v ?? {}\<close>: the empty object replaces \<open>undefined\<close> and \<open>null\<close>.\<close>

fun or_empty_object :: "json option \<Rightarrow> json" where
  "or_empty_object None = JObj []"
| "or_empty_object (Some JNull) = JObj []"
| "or_empty_object (Some v) = v"

text \<open>
  Whether converting a value to a string inside a template literal throws: an object whose
  own \<open>toString\<close> property hides the inherited method cannot be converted, and an array
  converts its elements.
\<close>

fun ToString_throws :: "json \<Rightarrow> bool" where
  "ToString_throws (JObj kvs) = (map_of kvs ''toString'' \<noteq> None)"
| "ToString_throws (JArr xs) = (\<exists>x \<in> set xs. ToString_throws x)"
| "ToString_throws v = False"

fun template_throws :: "json option \<Rightarrow> bool" where
  "template_throws None = False"
| "template_throws (Some v) = ToString_throws v"

text \<open>
  \<open>++n\<close> on a number that holds a non-negative integer: exact below \<open>2 ^ 53\<close>; at
  \<open>2 ^ 53\<close> the sum \<open>2 ^ 53 + 1\<close> is not a double and rounds back to \<open>2 ^ 53\<close>.
\<close>

definition js_incr :: "nat \<Rightarrow> nat" where
  "js_incr n = (if n < 2 ^ 53 then n + 1 else n)"

definition digit_char :: "nat \<Rightarrow> char" where
  "digit_char d = ''0123456789abcdef'' ! d"

text \<open>\<open>String(n)\<close> for a non-negative integer below \<open>10 ^ 21\<close>: its decimal digits.\<close>

function String_nat :: "nat \<Rightarrow> string" where
  "String_nat n =
     (if n < 10 then [digit_char n] else String_nat (n div 10) @ [digit_char (n mod 10)])"
  by pat_completeness auto
termination
  by (relation "measure id") auto

declare String_nat.simps [simp del]

section \<open>The G2 client (sdk/src/index.ts)\<close>

datatype ready_state = CONNECTING | OPEN | CLOSING | CLOSED

text \<open>
  The three errors the client rejects a request with: \<open>Not connected to bridge\<close>,
  \<open>Bridge connection lost\<close>, and \<open>[code] message\<close> built from the \<open>error\<close> member of a
  response.
\<close>

datatype g2_error =
    NotConnected
  | ConnectionLost
  | BridgeError "json option" "json option"

datatype promise = Pending | Resolved json | Rejected g2_error

text \<open>
  The fields of a \<open>G2\<close> instance, followed by what its methods act on outside it.
  \<open>ws\<close> is \<open>None\<close> for \<open>null\<close> and otherwise the socket's \<open>readyState\<close>.
  \<open>pending\<close> and \<open>listeners\<close> are the two \<open>Map\<close>s in insertion order. A
  \<open>PendingRequest\<close> holds the \<open>resolve\<close> and \<open>reject\<close> of one promise, so it is the
  index of that promise in \<open>promises\<close>. \<open>calls\<close> records each invocation of an event
  handler with its argument, and \<open>outbox\<close> is what was passed to \<open>ws.send\<close>.

  An event handler is a function of the application: a number stands for its identity, which
  is what the \<open>Set\<close>s of the listener registry compare, and its body is the sequence of
  calls of \<open>on\<close> and \<open>off\<close> it makes on the client when it runs, up to its return or
  the exception that \<open>emit\<close> catches. The registry is private, so these calls are the only
  way a handler changes it. A handler that registers another one holds it, so handlers are
  finite trees, and every dispatch of an event ends: a handler that registers itself again
  after deleting itself, which \<open>emit\<close> would call again and again, is not among them.
  The other methods act on other fields than a dispatch does, so a call of one of them
  by a handler is an operation of the run, after the message; what a handler does
  elsewhere is not part of the client.
\<close>

datatype handler = Handler (handler_id: nat) (handler_body: "listener_call list")
and listener_call = CallOn string handler | CallOff string nat

fun call_event :: "listener_call \<Rightarrow> string" where
  "call_event (CallOn event h) = event"
| "call_event (CallOff event i) = event"

text \<open>The number of handlers in a handler, itself included.\<close>

fun weight :: "handler \<Rightarrow> nat" and weight_call :: "listener_call \<Rightarrow> nat" where
  "weight (Handler i cs) = Suc (sum_list (map weight_call cs))"
| "weight_call (CallOn event h) = weight h"
| "weight_call (CallOff event i) = 0"

record g2 =
  ws :: "ready_state option"
  pending :: "(string \<times> nat) list"
  listeners :: "(string \<times> handler list) list"
  idCounter :: nat
  closed :: bool
  reconnectTimer :: bool
  autoReconnect :: bool
  promises :: "promise list"
  outbox :: "json list"
  calls :: "(nat \<times> json) list"

definition new_G2 :: "bool \<Rightarrow> g2" where
  "new_G2 auto =
     \<lparr>ws = None, pending = [], listeners = [], idCounter = 0, closed = False,
      reconnectTimer = False, autoReconnect = auto, promises = [], outbox = [], calls = []\<rparr>"

text \<open>A promise settles once: \<open>resolve\<close> and \<open>reject\<close> on a settled promise do nothing.\<close>

definition settle :: "nat \<Rightarrow> promise \<Rightarrow> promise list \<Rightarrow> promise list" where
  "settle p v ps = (if p < length ps \<and> ps ! p = Pending then ps[p := v] else ps)"

definition connectBridge :: "g2 \<Rightarrow> g2" where
  "connectBridge s =
     (if ws s = Some OPEN then s else s\<lparr>ws := Some CONNECTING, closed := False\<rparr>)"

definition scheduleReconnect :: "g2 \<Rightarrow> g2" where
  "scheduleReconnect s = (if reconnectTimer s then s else s\<lparr>reconnectTimer := True\<rparr>)"

text \<open>The callback \<open>scheduleReconnect\<close> hands to \<open>setTimeout\<close>.\<close>

definition reconnect_callback :: "g2 \<Rightarrow> g2" where
  "reconnect_callback s =
     (let s1 = s\<lparr>reconnectTimer := False\<rparr>
      in if closed s1 then s1 else connectBridge s1)"

definition reject_all :: "(string \<times> nat) list \<Rightarrow> promise list \<Rightarrow> promise list" where
  "reject_all reqs ps = fold (\<lambda>(id, req). settle req (Rejected ConnectionLost)) reqs ps"

definition onclose :: "g2 \<Rightarrow> g2" where
  "onclose s =
     (let s1 = s\<lparr>promises := reject_all (pending s) (promises s), pending := []\<rparr>
      in if autoReconnect s1 \<and> \<not> closed s1 then scheduleReconnect s1 else s1)"

text \<open>\<open>this.listeners.get(event)\<close>, with the empty list for \<open>undefined\<close>.\<close>

definition handlers_of :: "string \<Rightarrow> g2 \<Rightarrow> handler list" where
  "handlers_of event s = (case map_of (listeners s) event of None \<Rightarrow> [] | Some hs \<Rightarrow> hs)"

text \<open>
  \<open>on\<close> creates the set of the event when it is missing and adds the handler to it, at the
  end unless it is a member; \<open>off\<close> deletes the handler, given by its identity, from the
  set, if there is one.
\<close>

definition on :: "string \<Rightarrow> handler \<Rightarrow> g2 \<Rightarrow> g2" where
  "on event handler s =
     (let hs = handlers_of event s
      in s\<lparr>listeners :=
            AList.update event
              (if handler_id handler \<in> set (map handler_id hs) then hs else hs @ [handler])
              (listeners s)\<rparr>)"

definition off :: "string \<Rightarrow> nat \<Rightarrow> g2 \<Rightarrow> g2" where
  "off event handler s =
     (case map_of (listeners s) event of
        None \<Rightarrow> s
      | Some hs \<Rightarrow>
          s\<lparr>listeners :=
              AList.update event (filter (\<lambda>h. handler_id h \<noteq> handler) hs) (listeners s)\<rparr>)"

text \<open>
  \<open>emit\<close> iterates over the set of the event with \<open>for ... of\<close> while the handlers run,
  and the iteration of a \<open>Set\<close> follows the set as it changes: a handler deleted before its
  turn is not called, and one added during the iteration is called after those already
  there. \<open>perform\<close> is one call of \<open>on\<close> or \<open>off\<close> made by a running handler, on the
  client and on \<open>todo\<close>, the handlers that the iteration over the set of \<open>event\<close> has
  yet to reach.
\<close>

fun perform :: "string \<Rightarrow> listener_call \<Rightarrow> handler list \<times> g2 \<Rightarrow> handler list \<times> g2" where
  "perform event (CallOn e h) (todo, s) =
     (if e = event \<and> handler_id h \<notin> set (map handler_id (handlers_of e s))
      then todo @ [h] else todo,
      on e h s)"
| "perform event (CallOff e i) (todo, s) =
     (if e = event then filter (\<lambda>h. handler_id h \<noteq> i) todo else todo, off e i s)"

text \<open>
  The loop of \<open>emit\<close>: the next handler is called with the data, and its body runs; what
  it throws is caught.
\<close>

function dispatch :: "string \<Rightarrow> json \<Rightarrow> handler list \<Rightarrow> g2 \<Rightarrow> g2" where
  "dispatch event data [] s = s"
| "dispatch event data (h # todo) s =
     (case fold (perform event) (handler_body h)
             (todo, s\<lparr>calls := calls s @ [(handler_id h, data)]\<rparr>) of
        (todo', s') \<Rightarrow> dispatch event data todo' s')"
  by pat_completeness auto
termination
proof (relation "measure (\<lambda>(event, data, todo, s). sum_list (map weight todo))", goal_cases)
  case 1
  show ?case by simp
next
  case (2 event data h todo s todo' s')
  have filtered: "sum_list (map weight (filter Q xs)) \<le> sum_list (map weight xs)" for Q xs
    by (induction xs) auto
  have one: "sum_list (map weight (fst (perform event c (ts, t))))
      \<le> sum_list (map weight ts) + weight_call c" for c ts t
    by (cases c) (auto intro: order_trans [OF filtered])
  have all: "sum_list (map weight (fst (fold (perform event) cs p)))
      \<le> sum_list (map weight (fst p)) + sum_list (map weight_call cs)" for cs p
  proof (induction cs arbitrary: p)
    case Nil
    show ?case by simp
  next
    case (Cons c cs)
    obtain ts t where p: "p = (ts, t)" by (cases p)
    have "sum_list (map weight (fst (fold (perform event) cs (perform event c p))))
        \<le> sum_list (map weight (fst (perform event c p))) + sum_list (map weight_call cs)"
      by (rule Cons.IH)
    also have "\<dots> \<le> sum_list (map weight (fst p)) + weight_call c
        + sum_list (map weight_call cs)"
      using one [of c ts t] by (simp add: p)
    finally show ?case by simp
  qed
  have "sum_list (map weight todo')
      \<le> sum_list (map weight todo) + sum_list (map weight_call (handler_body h))"
    using all [of "handler_body h" "(todo, s\<lparr>calls := calls s @ [(handler_id h, data)]\<rparr>)"]
      2 [symmetric]
    by simp
  moreover have "weight h = Suc (sum_list (map weight_call (handler_body h)))"
    by (cases h) simp
  ultimately show ?case by simp
qed

text \<open>
  \<open>emit\<close> gets the set of the event, or nothing to iterate over when there is none.
  \<open>handleMessage\<close> passes on whatever the \<open>event\<close> member holds, and
  \<open>listeners.get\<close> finds a set for a string only.
\<close>

definition emit :: "json option \<Rightarrow> json \<Rightarrow> g2 \<Rightarrow> g2" where
  "emit event data s =
     (case event of
        Some (JStr e) \<Rightarrow> dispatch e data (handlers_of e s) s
      | _ \<Rightarrow> s)"

text \<open>\<open>this.pending.get(id)\<close>: the keys are strings, so only a string finds an entry.\<close>

fun pending_get :: "json option \<Rightarrow> (string \<times> nat) list \<Rightarrow> nat option" where
  "pending_get (Some (JStr k)) m = map_of m k"
| "pending_get v m = None"

fun pending_delete :: "json option \<Rightarrow> (string \<times> nat) list \<Rightarrow> (string \<times> nat) list" where
  "pending_delete (Some (JStr k)) m = AList.delete k m"
| "pending_delete v m = m"

text \<open>
  \<open>JSON_parse raw\<close> is \<open>None\<close> where \<open>JSON.parse\<close> throws. The result pairs how the
  call completed with the state it leaves: an exception after \<open>pending.delete\<close> keeps the
  deletion.
\<close>

definition handleMessage :: "(string \<Rightarrow> json option) \<Rightarrow> string \<Rightarrow> g2 \<Rightarrow> completion \<times> g2" where
  "handleMessage JSON_parse raw s =
     (case JSON_parse raw of
        None \<Rightarrow> (Normal, s)
      | Some msg \<Rightarrow>
          (case has_prop ''event'' msg of
             None \<Rightarrow> (Throw TypeError, s)
           | Some True \<Rightarrow>
               (Normal, emit (get_prop ''event'' msg) (or_empty_object (get_prop ''data'' msg)) s)
           | Some False \<Rightarrow>
               (let id = get_prop ''id'' msg in
                case pending_get id (pending s) of
                  None \<Rightarrow> (Normal, s)
                | Some req \<Rightarrow>
                    (let s1 = s\<lparr>pending := pending_delete id (pending s)\<rparr> in
                     case get_prop ''error'' msg of
                       None \<Rightarrow>
                         (Normal, s1\<lparr>promises :=
                            settle req (Resolved (or_empty_object (get_prop ''result'' msg))) (promises s1)\<rparr>)
                     | Some JNull \<Rightarrow> (Throw TypeError, s1)
                     | Some err \<Rightarrow>
                         (let code = get_prop ''code'' err; message = get_prop ''message'' err in
                          if template_throws code \<or> template_throws message
                          then (Throw TypeError, s1)
                          else (Normal, s1\<lparr>promises :=
                                 settle req (Rejected (BridgeError code message)) (promises s1)\<rparr>))))))"

text \<open>
  \<open>send\<close> returns the promise it creates (its index) and the state. The key is
  \<open>String(++this.idCounter)\<close>; \<open>Map.set\<close> replaces the value of a key that is present.
\<close>

definition send :: "string \<Rightarrow> json option \<Rightarrow> g2 \<Rightarrow> nat \<times> g2" where
  "send method params s =
     (let p = length (promises s); s0 = s\<lparr>promises := promises s @ [Pending]\<rparr> in
      if ws s0 \<noteq> Some OPEN
      then (p, s0\<lparr>promises := settle p (Rejected NotConnected) (promises s0)\<rparr>)
      else
        (let n = js_incr (idCounter s0);
             id = String_nat n;
             msg = JObj ([(''id'', JStr id), (''method'', JStr method)]
                         @ (case params of None \<Rightarrow> [] | Some ps \<Rightarrow> [(''params'', ps)]))
         in (p, s0\<lparr>idCounter := n, pending := AList.update id p (pending s0),
                    outbox := outbox s0 @ [msg]\<rparr>)))"

definition closeBridge :: "g2 \<Rightarrow> g2" where
  "closeBridge s = s\<lparr>closed := True, reconnectTimer := False, ws := None\<rparr>"

section \<open>Runs of one client\<close>

text \<open>
  What can happen to one instance: calls of its methods, the events of its sockets, and the
  reconnect timer. \<open>SocketClose\<close> is the close event of the socket \<open>this.ws\<close> holds,
  \<open>OldSocketClose\<close> that of a socket \<open>closeBridge\<close> or a later \<open>connectBridge\<close> has
  replaced: its \<open>onclose\<close> still acts on the same instance. \<open>ReconnectFailed\<close> is
  the \<open>catch\<close> of the reconnect callback, reached when the connection it started
  fails. An exception that escapes \<open>handleMessage\<close> ends the \<open>onmessage\<close> callback
  and keeps the state reached.
\<close>

datatype op =
    ConnectBridge
  | SocketOpen
  | SocketClose
  | OldSocketClose
  | SocketMessage string
  | Send string "json option"
  | CloseBridge
  | On string handler
  | Off string nat
  | TimerFires
  | ReconnectFailed

fun step :: "(string \<Rightarrow> json option) \<Rightarrow> op \<Rightarrow> g2 \<Rightarrow> g2" where
  "step P ConnectBridge s = connectBridge s"
| "step P SocketOpen s = (if ws s = Some CONNECTING then s\<lparr>ws := Some OPEN\<rparr> else s)"
| "step P SocketClose s = onclose (s\<lparr>ws := map_option (\<lambda>r. CLOSED) (ws s)\<rparr>)"
| "step P OldSocketClose s = onclose s"
| "step P (SocketMessage raw) s = snd (handleMessage P raw s)"
| "step P (Send method params) s = snd (send method params s)"
| "step P CloseBridge s = closeBridge s"
| "step P (On event handler) s = on event handler s"
| "step P (Off event handler) s = off event handler s"
| "step P TimerFires s = (if reconnectTimer s then reconnect_callback s else s)"
| "step P ReconnectFailed s = scheduleReconnect s"

fun run :: "(string \<Rightarrow> json option) \<Rightarrow> op list \<Rightarrow> g2 \<Rightarrow> g2" where
  "run P [] s = s"
| "run P (x # xs) s = run P xs (step P x s)"

section \<open>Invariants of runs\<close>

text \<open>The keys of the requests written to the socket so far, in order.\<close>

definition issued :: "g2 \<Rightarrow> json option list" where
  "issued s = map (get_prop ''id'') (outbox s)"

text \<open>
  What every run maintains: the counter stays within the exact integers; the pending map has
  one entry per key, each for an outstanding promise, registered under the string of a counter
  value already used, no promise under two keys; and while the counter is below \<open>2 ^ 53\<close>
  the keys issued are the strings of \<open>1\<close> to \<open>idCounter\<close>.
\<close>

definition client_inv :: "g2 \<Rightarrow> bool" where
  "client_inv s \<longleftrightarrow>
     idCounter s \<le> 2 ^ 53
     \<and> distinct (map fst (pending s))
     \<and> (\<forall>k r. map_of (pending s) k = Some r \<longrightarrow>
           r < length (promises s) \<and> promises s ! r = Pending
           \<and> (\<exists>n. 1 \<le> n \<and> n \<le> idCounter s \<and> k = String_nat n))
     \<and> (\<forall>k k' r. map_of (pending s) k = Some r \<and> map_of (pending s) k' = Some r \<longrightarrow> k = k')
     \<and> (idCounter s < 2 ^ 53 \<longrightarrow>
           issued s = map (\<lambda>n. Some (JStr (String_nat n))) [1 ..< Suc (idCounter s)])"

text \<open>
  The promise \<open>req\<close> is outstanding and is registered, if at all, under the key \<open>K\<close> only.
\<close>

definition awaiting :: "string \<Rightarrow> nat \<Rightarrow> g2 \<Rightarrow> bool" where
  "awaiting K req t \<longleftrightarrow>
     client_inv t \<and> req < length (promises t) \<and> promises t ! req = Pending
     \<and> (\<forall>k. map_of (pending t) k = Some req \<longrightarrow> k = K)"

section \<open>Protobuf helpers of the device-info example (sdk/examples/device-info.ts)\<close>

text \<open>
  The bitwise operators of JavaScript work on 32-bit two's complement integers: each
  operand is reduced modulo \<open>2 ^ 32\<close>, the result is read as a signed integer, and a shift
  count is taken modulo \<open>32\<close>. Numbers are modelled as \<open>int\<close>.
\<close>

definition ToInt32 :: "int \<Rightarrow> 32 word" where
  "ToInt32 x = word_of_int x"

definition js_and :: "int \<Rightarrow> int \<Rightarrow> int" where
  "js_and a b = sint (ToInt32 a AND ToInt32 b)"

definition js_or :: "int \<Rightarrow> int \<Rightarrow> int" where
  "js_or a b = sint (ToInt32 a OR ToInt32 b)"

definition js_shl :: "int \<Rightarrow> int \<Rightarrow> int" where
  "js_shl a n = sint (push_bit (nat (n mod 32)) (ToInt32 a))"

definition js_sar :: "int \<Rightarrow> int \<Rightarrow> int" where
  "js_sar a n = sint (signed_drop_bit (nat (n mod 32)) (ToInt32 a))"

function encodeVarint :: "int \<Rightarrow> int list" where
  "encodeVarint v =
     (if v > 127 then js_or (js_and v 127) 128 # encodeVarint (js_sar v 7)
      else [js_and v 127])"
  by pat_completeness auto
termination
proof (relation "measure nat")
  show "wf (measure nat)" by simp
next
  fix v :: int
  assume v: "127 < v"
  define s where "s = sint (word_of_int v :: 32 word)"
  have shift: "js_sar v 7 = s div 128"
    by (simp add: js_sar_def ToInt32_def s_def sint_signed_drop_bit_eq drop_bit_eq_div)
  have le: "s \<le> v"
    using v by (simp add: s_def sint_sbintrunc' signed_take_bit_int_less_eq_self_iff)
  have "s div 128 < v"
  proof (cases "s \<le> 0")
    case True
    then have "s div 128 \<le> 0" by (simp add: div_nonpos_pos_le0)
    with v show ?thesis by linarith
  next
    case False
    then have "s div 128 < s" by (simp add: int_div_less_self)
    with le show ?thesis by linarith
  qed
  with shift have "js_sar v 7 < v" by simp
  then show "(js_sar v 7, v) \<in> measure nat"
    using v by simp
qed

declare encodeVarint.simps [simp del]

definition pbVarint :: "int \<Rightarrow> int \<Rightarrow> int list" where
  "pbVarint field v = js_or (js_shl field 3) 0 # encodeVarint v"

definition pbBytes :: "int \<Rightarrow> int list \<Rightarrow> int list" where
  "pbBytes field data = js_or (js_shl field 3) 2 # encodeVarint (int (length data)) @ data"

text \<open>\<open>n.toString(16)\<close> for an integer, and \<open>padStart(2, "0")\<close>.\<close>

function hex_nat :: "nat \<Rightarrow> string" where
  "hex_nat n =
     (if n < 16 then [digit_char n] else hex_nat (n div 16) @ [digit_char (n mod 16)])"
  by pat_completeness auto
termination
  by (relation "measure id") auto

declare hex_nat.simps [simp del]

definition toString16 :: "int \<Rightarrow> string" where
  "toString16 b = (if b < 0 then CHR ''-'' # hex_nat (nat (- b)) else hex_nat (nat b))"

definition padStart2 :: "string \<Rightarrow> string" where
  "padStart2 s = replicate (2 - length s) CHR ''0'' @ s"

definition toHex :: "int list \<Rightarrow> string" where
  "toHex bytes = concat (map (\<lambda>b. padStart2 (toString16 b)) bytes)"

text \<open>
  \<open>Buffer.from(hex, "hex")\<close>: one byte for each pair of hexadecimal digits, up to the
  first pair that is not one; a last single character is dropped.
\<close>

definition hex_val :: "char \<Rightarrow> nat option" where
  "hex_val c = map_of (zip ''0123456789abcdefABCDEF''
                           [0, 1, 2, 3, 4, 5, 6, 7, 8, 9, 10, 11, 12, 13, 14, 15, 10, 11, 12, 13, 14, 15]) c"

fun Buffer_from_hex :: "string \<Rightarrow> nat list" where
  "Buffer_from_hex (a # b # rest) =
     (case hex_val a of
        None \<Rightarrow> []
      | Some x \<Rightarrow> (case hex_val b of None \<Rightarrow> [] | Some y \<Rightarrow> (16 * x + y) # Buffer_from_hex rest))"
| "Buffer_from_hex s = []"

text \<open>
  \<open>bytes[pos]\<close>: outside the buffer the read gives \<open>undefined\<close> (\<open>None\<close>), which the
  bitwise operators take as \<open>0\<close>.
\<close>

definition byte_at :: "nat list \<Rightarrow> int \<Rightarrow> int option" where
  "byte_at bytes pos =
     (if 0 \<le> pos \<and> pos < int (length bytes) then Some (int (bytes ! nat pos)) else None)"

fun operand :: "int option \<Rightarrow> int" where
  "operand None = 0"
| "operand (Some v) = v"

text \<open>
  \<open>bytes.subarray(start, end)\<close>: a negative index counts from the end, and both are
  clamped to the buffer.
\<close>

definition clamp_index :: "int \<Rightarrow> int \<Rightarrow> int" where
  "clamp_index n i = (if i < 0 then max (n + i) 0 else min i n)"

definition subarray :: "nat list \<Rightarrow> int \<Rightarrow> int \<Rightarrow> nat list" where
  "subarray bytes start end =
     (let n = int (length bytes); s = clamp_index n start; e = clamp_index n end
      in take (nat (e - s)) (drop (nat s) bytes))"

text \<open>
  \<open>readUInt32LE\<close> and \<open>readBigUInt64LE\<close> throw a RangeError (\<open>None\<close>) unless the whole
  value lies inside the buffer.
\<close>

fun little_endian :: "nat list \<Rightarrow> nat" where
  "little_endian [] = 0"
| "little_endian (b # bs) = b + 256 * little_endian bs"

definition read_LE :: "nat \<Rightarrow> nat list \<Rightarrow> int \<Rightarrow> nat option" where
  "read_LE width bytes pos =
     (if 0 \<le> pos \<and> pos + int width \<le> int (length bytes)
      then Some (little_endian (take width (drop (nat pos) bytes)))
      else None)"

text \<open>
  The records \<open>parseProtobuf\<close> pushes: \<open>{field, type: "varint", value}\<close>,
  \<open>{field, type: "bytes", hex, string, length}\<close>, \<open>{field, type: "fixed32", value}\<close> and
  \<open>{field, type: "fixed64", value}\<close>, the last with the value as a decimal string.
\<close>

datatype pb_field =
    Varint int int
  | Bytes int string "string option" int
  | Fixed32 int nat
  | Fixed64 int string

fun field_of :: "pb_field \<Rightarrow> int" where
  "field_of (Varint f v) = f"
| "field_of (Bytes f h s l) = f"
| "field_of (Fixed32 f v) = f"
| "field_of (Fixed64 f v) = f"

fun type_of :: "pb_field \<Rightarrow> string" where
  "type_of (Varint f v) = ''varint''"
| "type_of (Bytes f h s l) = ''bytes''"
| "type_of (Fixed32 f v) = ''fixed32''"
| "type_of (Fixed64 f v) = ''fixed64''"

text \<open>
  The inner loop that reads a varint, the same for wire types 0 and 2: it returns the value
  and the position after it. \<open>!(b & 0x80)\<close> holds when the masked byte is \<open>0\<close>.
\<close>

function read_varint :: "nat list \<Rightarrow> int \<Rightarrow> int \<Rightarrow> int \<Rightarrow> int \<times> int" where
  "read_varint bytes pos v shift =
     (if pos < int (length bytes) then
        (let b = operand (byte_at bytes pos);
             v' = js_or v (js_shl (js_and b 127) shift)
         in if js_and b 128 = 0 then (v', pos + 1)
            else read_varint bytes (pos + 1) v' (shift + 7))
      else (v, pos))"
  by pat_completeness auto
termination
  by (relation "measure (\<lambda>(bytes, pos, v, shift). nat (int (length bytes) - pos))") auto

declare read_varint.simps [simp del]

text \<open>
  The string a bytes field shows: the UTF-8 text of the data when it is not empty and
  consists of printable ASCII, carriage return, line feed and tab only.
\<close>

definition printable :: "nat \<Rightarrow> bool" where
  "printable b \<longleftrightarrow> (32 \<le> b \<and> b \<le> 126) \<or> b = 13 \<or> b = 10 \<or> b = 9"

definition data_string :: "nat list \<Rightarrow> string option" where
  "data_string data =
     (if data \<noteq> [] \<and> list_all printable data then Some (map char_of data) else None)"

definition data_hex :: "nat list \<Rightarrow> string" where
  "data_hex data = concat (map (\<lambda>b. padStart2 (hex_nat b)) data)"

text \<open>
  The main loop of \<open>parseProtobuf\<close>. \<open>None\<close> is a loop that never ends, \<open>Inl\<close> an
  exception that leaves the function, \<open>Inr\<close> the fields returned.
\<close>

partial_function (option) parse_loop ::
    "nat list \<Rightarrow> int \<Rightarrow> pb_field list \<Rightarrow> (js_error + pb_field list) option" where
  "parse_loop bytes pos flds =
     (if pos < int (length bytes) then
        (let tag = operand (byte_at bytes pos);
             pos1 = pos + 1;
             fieldNum = js_sar tag 3;
             wireType = js_and tag 7
         in if wireType = 0 then
              (let r = read_varint bytes pos1 0 0
               in parse_loop bytes (snd r) (flds @ [Varint fieldNum (fst r)]))
            else if wireType = 2 then
              (let r = read_varint bytes pos1 0 0;
                   len = fst r;
                   data = subarray bytes (snd r) (snd r + len)
               in parse_loop bytes (snd r + len)
                    (flds @ [Bytes fieldNum (data_hex data) (data_string data) len]))
            else if wireType = 5 then
              (case read_LE 4 bytes pos1 of
                 None \<Rightarrow> Some (Inl RangeError)
               | Some v \<Rightarrow> parse_loop bytes (pos1 + 4) (flds @ [Fixed32 fieldNum v]))
            else if wireType = 1 then
              (case read_LE 8 bytes pos1 of
                 None \<Rightarrow> Some (Inl RangeError)
               | Some v \<Rightarrow> parse_loop bytes (pos1 + 8) (flds @ [Fixed64 fieldNum (String_nat v)]))
            else Some (Inr flds))
      else Some (Inr flds))"

definition parseProtobuf :: "string \<Rightarrow> (js_error + pb_field list) option" where
  "parseProtobuf hex = parse_loop (Buffer_from_hex hex) 0 []"

section \<open>Frame codec and fragment reassembler\<close>

text \<open>
  The frame codec and the fragment reassembler belong to the BLE bridge
  (\<open>bridge/server.py\<close>), whose code the SDK sources do not contain. This section follows
  sections 3, 4.1, 4.2 and 7 of the specification. For the bytes of a packet it follows the
  protocol notes of the repository: \<open>NEXT_SESSION.md\<close> gives the packet format as
  \<open>AA 21 seq len tot ser svc_hi svc_lo [protobuf] [crc16]\<close>, \<open>docs/dashboard-protocol.md\<close>
  finds the payload in \<open>pkt_len - 2\<close> bytes after the service bytes and validates
  \<open>pkt_len 2-200, pkt_tot 1-20, pkt_ser 1-pkt_tot\<close>, and \<open>printResponse\<close> reads a
  packet the same way: the service in bytes 6 and 7, the payload from byte 8, two bytes
  after it.
\<close>

type_synonym byte = "8 word"

datatype framing_error = LengthOutOfRange | SequenceOutOfRange | ChecksumMismatch

text \<open>
  Modelled from the spec: the Frame of section 3, with its \<open>u8\<close> and \<open>u16\<close> fields
  (the bridge's packet type is missing).
\<close>

record frame =
  sequence :: byte
  fragment_index :: byte
  fragment_total :: byte
  service_major :: byte
  service_minor :: byte
  payload :: "byte list"
  checksum :: "16 word"

text \<open>
  Modelled from the spec: what section 4.1 leaves open (the bridge's constants are
  missing): the integrity code, and the "bounded range" of frame lengths, given by the
  least and the greatest value of the length byte that the decoder accepts.
\<close>

record codec =
  checksum_of :: "byte list \<Rightarrow> 16 word"
  min_len :: byte
  max_len :: byte

text \<open>
  Modelled from the spec: the bytes of a frame that precede its checksum (the bridge's
  serialiser is missing), in the order of the packet format: the marker \<open>AA\<close>, the type
  \<open>21\<close> of a command, the sequence number, the length byte, which counts the payload and
  two bytes more, the fragment count and index, and the service; then the payload.
\<close>

definition frame_bytes :: "frame \<Rightarrow> byte list" where
  "frame_bytes f =
     [0xAA, 0x21, sequence f, of_nat (length (payload f) + 2), fragment_total f,
      fragment_index f, service_major f, service_minor f]
     @ payload f"

text \<open>
  Modelled from the spec: the packet written to the transport (the bridge's serialiser is
  missing): the frame followed by the two bytes of its checksum. The notes do not give
  their order; the low byte comes first here.
\<close>

definition packet :: "frame \<Rightarrow> byte list" where
  "packet f =
     frame_bytes f
     @ [of_nat (unat (checksum f) mod 256), of_nat (unat (checksum f) div 256)]"

text \<open>
  Modelled from the spec: the total frame lengths that the decoder accepts (the bridge's
  constants are missing): the eight bytes before the payload and the range of the length
  byte.
\<close>

definition min_frame_length :: "codec \<Rightarrow> nat" where
  "min_frame_length c = unat (min_len c) + 8"

definition max_frame_length :: "codec \<Rightarrow> nat" where
  "max_frame_length c = unat (max_len c) + 8"

text \<open>
  Modelled from the spec: the encoder of section 4.1 (the bridge's packet builder is
  missing). It "splits body into chunks no larger than max_fragment_payload, assigns
  fragment_total = ceil(len(body)/max_fragment_payload), numbers fragments from 1, and
  computes the checksum over each frame independently"; the sequence number "wraps modulo
  256". The message id travels inside the body. First, the split into chunks.
\<close>

function chunks :: "nat \<Rightarrow> 'a list \<Rightarrow> 'a list list" where
  "chunks m xs = (if m = 0 \<or> xs = [] then [] else take m xs # chunks m (drop m xs))"
  by pat_completeness auto
termination
  by (relation "measure (\<lambda>(m, xs). length xs)") auto

declare chunks.simps [simp del]

text \<open>Modelled from the spec: \<open>ceil(a / b)\<close> on natural numbers.\<close>

definition ceil_div :: "nat \<Rightarrow> nat \<Rightarrow> nat" where
  "ceil_div a b = (a + b - 1) div b"

text \<open>
  Modelled from the spec: one frame of the encoder, with the checksum "computed over the
  frame preceding it"; the index and the count are stored in one byte each.
\<close>

definition make_frame :: "codec \<Rightarrow> byte \<times> byte \<Rightarrow> byte \<Rightarrow> nat \<Rightarrow> nat \<Rightarrow> byte list \<Rightarrow> frame" where
  "make_frame c svc seq index tot chunk =
     (let f = \<lparr>sequence = seq, fragment_index = of_nat index, fragment_total = of_nat tot,
               service_major = fst svc, service_minor = snd svc,
               payload = chunk, checksum = 0\<rparr>
      in f\<lparr>checksum := checksum_of c (frame_bytes f)\<rparr>)"

text \<open>
  Modelled from the spec: the frames of a list of chunks, numbered upwards from
  \<open>index\<close>, with consecutive sequence numbers, which wrap at 256, and one
  \<open>fragment_total\<close>.
\<close>

fun frames_from ::
    "codec \<Rightarrow> byte \<times> byte \<Rightarrow> byte \<Rightarrow> nat \<Rightarrow> nat \<Rightarrow> byte list list \<Rightarrow> frame list" where
  "frames_from c svc seq tot index [] = []"
| "frames_from c svc seq tot index (chunk # rest) =
     make_frame c svc seq index tot chunk
     # frames_from c svc (seq + 1) tot (index + 1) rest"

text \<open>
  Modelled from the spec: \<open>encode(service, message_id, body, max_fragment_payload)\<close> of
  section 4.1, numbering fragments from 1; \<open>seq\<close> is the connection's next sequence
  number.
\<close>

definition encode :: "codec \<Rightarrow> byte \<times> byte \<Rightarrow> byte \<Rightarrow> byte list \<Rightarrow> nat \<Rightarrow> frame list" where
  "encode c svc seq payload_body max_fragment_payload =
     frames_from c svc seq (ceil_div (length payload_body) max_fragment_payload) 1
       (chunks max_fragment_payload payload_body)"

text \<open>
  Modelled from the spec: \<open>decode(bytes)\<close> of section 4.1 (the bridge's packet parser is
  missing). It "validates: total frame length is within a bounded range (rejects absurd len
  claims that would read past the buffer); fragment_total is within [1, 20];
  fragment_index <= fragment_total; checksum matches", and tags the error with the
  invariant broken. The length is out of range when the header is not all there, when the
  length byte is outside the codec's range or below the two bytes it always counts, and
  when the bytes it claims are not in the buffer. The fields are then read from their
  places; a decoded frame satisfies the invariant \<open>1 <= fragment_index\<close> of section 3.
\<close>

definition decode :: "codec \<Rightarrow> byte list \<Rightarrow> framing_error + frame" where
  "decode c bs =
     (if length bs < 8 then Inl LengthOutOfRange
      else
        (let len = bs ! 3 in
         if len < min_len c \<or> max_len c < len \<or> unat len < 2 \<or> length bs < unat len + 8
         then Inl LengthOutOfRange
         else
           (let n = unat len - 2;
                f = \<lparr>sequence = bs ! 2, fragment_index = bs ! 5, fragment_total = bs ! 4,
                     service_major = bs ! 6, service_minor = bs ! 7,
                     payload = take n (drop 8 bs),
                     checksum = of_nat (unat (bs ! (8 + n)) + 256 * unat (bs ! (9 + n)))\<rparr>
            in if fragment_total f < 1 \<or> 20 < fragment_total f
                  \<or> fragment_index f < 1 \<or> fragment_total f < fragment_index f
               then Inl SequenceOutOfRange
               else if checksum f \<noteq> checksum_of c (take (8 + n) bs)
               then Inl ChecksumMismatch
               else Inr f)))"

text \<open>
  Modelled from the spec: the LogicalMessage of section 3 and the reassembler of section
  4.2 (the bridge's reassembly code is missing). One message is in progress at a time; a
  frame with index 1 starts a new assembly and discards an incomplete one; a later frame
  is accepted only as the next fragment of the assembly in progress, anything else
  discards the assembly; a frame whose bytes were seen before is dropped; a frame with
  index 0 or above its total "yields a FramingError and leaves prior in-progress assembly
  untouched". The assembly timeout is a matter of real time and is left out.
\<close>

record logical_message =
  service :: "byte \<times> byte"
  body :: "byte list"

text \<open>
  Modelled from the spec: the message being assembled (the index expected next, the
  fragment count, the service of the first fragment, the bytes collected), and the
  reassembler's state: that assembly, if any, and the packets seen so far, which stand
  for their content hashes.
\<close>

record assembly =
  next_index :: byte
  expected_total :: byte
  asm_service :: "byte \<times> byte"
  collected :: "byte list"

record reassembler =
  in_progress :: "assembly option"
  seen :: "byte list list"

text \<open>Modelled from the spec: the reassembler of a new connection.\<close>

definition new_reassembler :: reassembler where
  "new_reassembler = \<lparr>in_progress = None, seen = []\<rparr>"

text \<open>Modelled from the spec: \<open>feed(Frame)\<close> of section 4.2, as described above.\<close>

definition feed :: "frame \<Rightarrow> reassembler \<Rightarrow> (framing_error + logical_message option) \<times> reassembler" where
  "feed f r =
     (if fragment_index f = 0 \<or> fragment_total f < fragment_index f
      then (Inl SequenceOutOfRange, r)
      else if packet f \<in> set (seen r) then (Inr None, r)
      else
        (let r1 = r\<lparr>seen := packet f # seen r\<rparr> in
         if fragment_index f = 1 then
           (if fragment_total f = 1
            then (Inr (Some \<lparr>service = (service_major f, service_minor f), body = payload f\<rparr>),
                  r1\<lparr>in_progress := None\<rparr>)
            else (Inr None,
                  r1\<lparr>in_progress := Some \<lparr>next_index = 2, expected_total = fragment_total f,
                           asm_service = (service_major f, service_minor f),
                           collected = payload f\<rparr>\<rparr>))
         else
           (case in_progress r of
              None \<Rightarrow> (Inr None, r1)
            | Some a \<Rightarrow>
                if fragment_index f = next_index a \<and> fragment_total f = expected_total a then
                  (if fragment_index f = expected_total a
                   then (Inr (Some \<lparr>service = asm_service a, body = collected a @ payload f\<rparr>),
                         r1\<lparr>in_progress := None\<rparr>)
                   else (Inr None,
                         r1\<lparr>in_progress := Some (a\<lparr>next_index := next_index a + 1,
                                  collected := collected a @ payload f\<rparr>)\<rparr>))
                else (Inr None, r1\<lparr>in_progress := None\<rparr>))))"

text \<open>
  Modelled from the spec: the inbound pipeline of sections 2 and 7 on a sequence of
  packets (the bridge's notification handler is missing). A packet that fails to decode
  "is dropped, decoding continues with the next chunk"; the messages completed are
  returned in order.
\<close>

fun assemble_all :: "codec \<Rightarrow> byte list list \<Rightarrow> reassembler \<Rightarrow> logical_message list" where
  "assemble_all c [] r = []"
| "assemble_all c (bs # rest) r =
     (case decode c bs of
        Inl e \<Rightarrow> assemble_all c rest r
      | Inr f \<Rightarrow>
          (case feed f r of
             (Inr (Some msg), r') \<Rightarrow> msg # assemble_all c rest r'
           | (other, r') \<Rightarrow> assemble_all c rest r'))"

text \<open>
  Modelled from the spec: the round trip of section 8 (the bridge's code is missing):
  \<open>encode\<close>, the packets of the frames written one by one, and the inbound pipeline at
  the other end, on the reassembler \<open>r\<close> of the receiving connection.
\<close>

definition round_trip ::
    "codec \<Rightarrow> reassembler \<Rightarrow> byte \<times> byte \<Rightarrow> byte \<Rightarrow> byte list \<Rightarrow> nat \<Rightarrow> logical_message list" where
  "round_trip c r svc seq P max_fragment_payload =
     assemble_all c (map packet (encode c svc seq P max_fragment_payload)) r"

text \<open>
  Modelled from the spec: an integrity code for the examples, the sum of the bytes modulo
  \<open>2 ^ 16\<close> (the CRC-16 of the bridge is missing), and with it the codec whose length
  byte ranges over \<open>2-200\<close>, as in the protocol notes.
\<close>

definition sum16 :: "byte list \<Rightarrow> 16 word" where
  "sum16 bs = of_nat (sum_list (map unat bs))"

definition notes_codec :: codec where
  "notes_codec = \<lparr>checksum_of = sum16, min_len = 2, max_len = 200\<rparr>"
section \<open>Malformed input\<close>

text \<open>
  C6. A chunk that fails to parse as JSON makes \<open>handleMessage\<close> return normally with
  the whole state as it was: no request settled, no handler called, the socket, the pending
  map and the listener registry untouched.
\<close>

theorem handleMessage_unparsable:
  "JSON_parse raw = None \<Longrightarrow> handleMessage JSON_parse raw s = (Normal, s)"
  by (simp add: handleMessage_def)

theorem handleMessage_unparsable_witness:
  \<open>map_of [(''{"id":"1","result":{}}'', JObj [(''id'', JStr ''1''), (''result'', JObj [])])] ''{"id":'' = None
   \<and> handleMessage (map_of [(''{"id":"1","result":{}}'', JObj [(''id'', JStr ''1''), (''result'', JObj [])])])
         ''{"id":'' (on ''response'' (Handler 0 []) (snd (send ''getStatus'' None (new_G2 True\<lparr>ws := Some OPEN\<rparr>))))
       = (Normal, on ''response'' (Handler 0 []) (snd (send ''getStatus'' None (new_G2 True\<lparr>ws := Some OPEN\<rparr>))))\<close>
  using handleMessage_unparsable
    [of \<open>map_of [(''{"id":"1","result":{}}'', JObj [(''id'', JStr ''1''), (''result'', JObj [])])]\<close>
        \<open>''{"id":''\<close>]
  by simp

section \<open>Connection loss\<close>

lemma settle_length [simp]: "length (settle p v ps) = length ps"
  by (simp add: settle_def)

lemma settle_nth:
  "i < length ps \<Longrightarrow> settle p v ps ! i = (if i = p \<and> ps ! i = Pending then v else ps ! i)"
  by (auto simp: settle_def)

lemma reject_all_length [simp]: "length (reject_all reqs ps) = length ps"
  unfolding reject_all_def by (induction reqs arbitrary: ps) auto

lemma reject_all_nth:
  "i < length ps \<Longrightarrow>
   reject_all reqs ps ! i =
     (if ps ! i = Pending \<and> i \<in> snd ` set reqs then Rejected ConnectionLost else ps ! i)"
  unfolding reject_all_def
proof (induction reqs arbitrary: ps)
  case Nil
  then show ?case by simp
next
  case (Cons r reqs)
  obtain k req where r: "r = (k, req)" by (cases r)
  have len: "i < length (settle req (Rejected ConnectionLost) ps)"
    using Cons.prems by simp
  show ?case
    using Cons.IH [OF len] Cons.prems
    by (auto simp: r settle_nth)
qed

lemma scheduleReconnect_fields [simp]:
  "promises (scheduleReconnect s) = promises s"
  "pending (scheduleReconnect s) = pending s"
  "idCounter (scheduleReconnect s) = idCounter s"
  "outbox (scheduleReconnect s) = outbox s"
  "listeners (scheduleReconnect s) = listeners s"
  "calls (scheduleReconnect s) = calls s"
  by (simp_all add: scheduleReconnect_def)

lemma onclose_fields [simp]:
  "pending (onclose s) = []"
  "promises (onclose s) = reject_all (pending s) (promises s)"
  "idCounter (onclose s) = idCounter s"
  "outbox (onclose s) = outbox s"
  "listeners (onclose s) = listeners s"
  "calls (onclose s) = calls s"
  by (simp_all add: onclose_def Let_def)

text \<open>
  C2. When the socket closes, the \<open>onclose\<close> handler rejects every request of the
  pending map whose promise is still outstanding with \<open>Bridge connection lost\<close>, and
  leaves the map empty.
\<close>

theorem onclose_rejects_pending:
  "pending (onclose s) = [] \<and>
   (\<forall>(k, req) \<in> set (pending s).
      req < length (promises s) \<and> promises s ! req = Pending \<longrightarrow>
      promises (onclose s) ! req = Rejected ConnectionLost)"
  by (force simp: reject_all_nth)

theorem onclose_rejects_pending_witness:
  "pending (onclose (snd (send ''setText'' None (snd (send ''connect'' None (new_G2 True\<lparr>ws := Some OPEN\<rparr>)))))) = []
   \<and> promises (onclose (snd (send ''setText'' None (snd (send ''connect'' None (new_G2 True\<lparr>ws := Some OPEN\<rparr>))))))
       = [Rejected ConnectionLost, Rejected ConnectionLost]
   \<and> pending (snd (send ''setText'' None (snd (send ''connect'' None (new_G2 True\<lparr>ws := Some OPEN\<rparr>)))))
       = [(''1'', 0), (''2'', 1)]
   \<and> promises (snd (send ''setText'' None (snd (send ''connect'' None (new_G2 True\<lparr>ws := Some OPEN\<rparr>)))))
       = [Pending, Pending]"
  using onclose_rejects_pending
    [of "snd (send ''setText'' None (snd (send ''connect'' None (new_G2 True\<lparr>ws := Some OPEN\<rparr>))))"]
  by (simp add: send_def new_G2_def js_incr_def String_nat.simps digit_char_def Let_def
      reject_all_def settle_def)

section \<open>Responses\<close>

lemma send_connected:
  "ws s = Some OPEN \<Longrightarrow>
   send method params s =
     (length (promises s),
      s\<lparr>promises := promises s @ [Pending],
        idCounter := js_incr (idCounter s),
        pending := AList.update (String_nat (js_incr (idCounter s))) (length (promises s)) (pending s),
        outbox := outbox s @ [JObj ([(''id'', JStr (String_nat (js_incr (idCounter s)))), (''method'', JStr method)]
                         @ (case params of None \<Rightarrow> [] | Some ps \<Rightarrow> [(''params'', ps)]))]\<rparr>)"
  by (simp add: send_def Let_def)

lemma send_not_connected:
  "ws s \<noteq> Some OPEN \<Longrightarrow>
   send method params s = (length (promises s), s\<lparr>promises := promises s @ [Rejected NotConnected]\<rparr>)"
  by (simp add: send_def Let_def settle_def)

text \<open>
  C1, as the code has it. A connected \<open>send\<close> registers its promise, still outstanding,
  under the key \<open>String(++idCounter)\<close>. When \<open>handleMessage\<close> receives a JSON object
  without an \<open>event\<close> member whose \<open>id\<close> is the string \<open>K\<close> while that entry is
  pending, the entry is removed; the promise resolves with the \<open>result\<close> member (the
  empty object when it is absent or null) if the message has no \<open>error\<close> member, and is
  rejected with \<open>[code] message\<close> if it has one that is not null and whose \<open>code\<close> and
  \<open>message\<close> convert to strings.
\<close>

theorem response_settles_request:
  "(ws s0 = Some OPEN \<longrightarrow>
      map_of (pending (snd (send method params s0))) (String_nat (js_incr (idCounter s0)))
        = Some (fst (send method params s0))
      \<and> fst (send method params s0) < length (promises (snd (send method params s0)))
      \<and> promises (snd (send method params s0)) ! fst (send method params s0) = Pending)
   \<and> (JSON_parse raw = Some (JObj kvs) \<and> map_of kvs ''event'' = None
        \<and> map_of kvs ''id'' = Some (JStr K) \<and> map_of (pending s) K = Some req
        \<and> req < length (promises s) \<and> promises s ! req = Pending \<longrightarrow>
      (map_of kvs ''error'' = None \<longrightarrow>
         fst (handleMessage JSON_parse raw s) = Normal
         \<and> map_of (pending (snd (handleMessage JSON_parse raw s))) K = None
         \<and> promises (snd (handleMessage JSON_parse raw s)) ! req
             = Resolved (or_empty_object (map_of kvs ''result'')))
      \<and> (\<forall>err. map_of kvs ''error'' = Some err \<and> err \<noteq> JNull
            \<and> \<not> template_throws (get_prop ''code'' err)
            \<and> \<not> template_throws (get_prop ''message'' err) \<longrightarrow>
         fst (handleMessage JSON_parse raw s) = Normal
         \<and> map_of (pending (snd (handleMessage JSON_parse raw s))) K = None
         \<and> promises (snd (handleMessage JSON_parse raw s)) ! req
             = Rejected (BridgeError (get_prop ''code'' err) (get_prop ''message'' err))))"
proof (intro conjI impI allI)
  assume "ws s0 = Some OPEN"
  then show "map_of (pending (snd (send method params s0))) (String_nat (js_incr (idCounter s0)))
        = Some (fst (send method params s0))"
    by (simp add: send_connected update_conv')
next
  assume "ws s0 = Some OPEN"
  then show "fst (send method params s0) < length (promises (snd (send method params s0)))"
    by (simp add: send_connected)
next
  assume "ws s0 = Some OPEN"
  then show "promises (snd (send method params s0)) ! fst (send method params s0) = Pending"
    by (simp add: send_connected)
next
  assume a: "JSON_parse raw = Some (JObj kvs) \<and> map_of kvs ''event'' = None
        \<and> map_of kvs ''id'' = Some (JStr K) \<and> map_of (pending s) K = Some req
        \<and> req < length (promises s) \<and> promises s ! req = Pending"
    and e: "map_of kvs ''error'' = None"
  show "fst (handleMessage JSON_parse raw s) = Normal"
    using a e by (simp add: handleMessage_def Let_def)
  show "map_of (pending (snd (handleMessage JSON_parse raw s))) K = None"
    using a e by (simp add: handleMessage_def Let_def delete_conv')
  show "promises (snd (handleMessage JSON_parse raw s)) ! req
             = Resolved (or_empty_object (map_of kvs ''result''))"
    using a e by (simp add: handleMessage_def Let_def settle_def)
next
  fix err
  assume a: "JSON_parse raw = Some (JObj kvs) \<and> map_of kvs ''event'' = None
        \<and> map_of kvs ''id'' = Some (JStr K) \<and> map_of (pending s) K = Some req
        \<and> req < length (promises s) \<and> promises s ! req = Pending"
    and e: "map_of kvs ''error'' = Some err \<and> err \<noteq> JNull
            \<and> \<not> template_throws (get_prop ''code'' err)
            \<and> \<not> template_throws (get_prop ''message'' err)"
  show "fst (handleMessage JSON_parse raw s) = Normal"
    using a e by (cases err) (simp_all add: handleMessage_def Let_def)
  show "map_of (pending (snd (handleMessage JSON_parse raw s))) K = None"
    using a e by (cases err) (simp_all add: handleMessage_def Let_def delete_conv')
  show "promises (snd (handleMessage JSON_parse raw s)) ! req
             = Rejected (BridgeError (get_prop ''code'' err) (get_prop ''message'' err))"
    using a e by (cases err) (simp_all add: handleMessage_def Let_def settle_def)
qed

lemma new_send_1:
  "send ''getStatus'' None
     \<lparr>ws = Some OPEN, pending = [], listeners = [], idCounter = 0, closed = False,
      reconnectTimer = False, autoReconnect = True, promises = [], outbox = [], calls = []\<rparr> =
     (0, \<lparr>ws = Some OPEN, pending = [(''1'', 0)], listeners = [], idCounter = 1, closed = False,
          reconnectTimer = False, autoReconnect = True, promises = [Pending],
          outbox = [JObj [(''id'', JStr ''1''), (''method'', JStr ''getStatus'')]], calls = []\<rparr>)"
  by (simp add: send_def js_incr_def String_nat.simps digit_char_def Let_def)

theorem response_settles_request_witness:
  \<open>ws (new_G2 True\<lparr>ws := Some OPEN\<rparr>) = Some OPEN
   \<and> send ''getStatus'' None (new_G2 True\<lparr>ws := Some OPEN\<rparr>)
       = (0, \<lparr>ws = Some OPEN, pending = [(''1'', 0)], listeners = [], idCounter = 1, closed = False,
              reconnectTimer = False, autoReconnect = True, promises = [Pending],
              outbox = [JObj [(''id'', JStr ''1''), (''method'', JStr ''getStatus'')]], calls = []\<rparr>)
   \<and> String_nat (js_incr (idCounter (new_G2 True\<lparr>ws := Some OPEN\<rparr>))) = ''1''
   \<and> handleMessage
        (map_of [(''{"id":"1","result":{"connected":true}}'',
                  JObj [(''id'', JStr ''1''), (''result'', JObj [(''connected'', JBool True)])])])
        ''{"id":"1","result":{"connected":true}}''
        (snd (send ''getStatus'' None (new_G2 True\<lparr>ws := Some OPEN\<rparr>)))
       = (Normal,
          \<lparr>ws = Some OPEN, pending = [], listeners = [], idCounter = 1, closed = False,
           reconnectTimer = False, autoReconnect = True,
           promises = [Resolved (JObj [(''connected'', JBool True)])],
           outbox = [JObj [(''id'', JStr ''1''), (''method'', JStr ''getStatus'')]], calls = []\<rparr>)\<close>
  using response_settles_request
    [of \<open>new_G2 True\<lparr>ws := Some OPEN\<rparr>\<close> \<open>''getStatus''\<close> None
        \<open>map_of [(''{"id":"1","result":{"connected":true}}'',
                  JObj [(''id'', JStr ''1''), (''result'', JObj [(''connected'', JBool True)])])]\<close>
        \<open>''{"id":"1","result":{"connected":true}}''\<close>
        \<open>[(''id'', JStr ''1''), (''result'', JObj [(''connected'', JBool True)])]\<close>
        \<open>''1''\<close>
        \<open>snd (send ''getStatus'' None (new_G2 True\<lparr>ws := Some OPEN\<rparr>))\<close>
        0]
  by (simp add: new_G2_def new_send_1 handleMessage_def Let_def settle_def js_incr_def
      String_nat.simps digit_char_def)

text \<open>
  C1 as stated fails: a message with the pending \<open>id\<close> and a \<open>result\<close> that also has
  an \<open>error\<close> member rejects the promise, and one that also has an \<open>event\<close> member is
  emitted as an event, leaving the entry pending.
\<close>

theorem response_with_error_or_event_counterexample:
  \<open>map_of (pending (snd (send ''getStatus'' None (new_G2 True\<lparr>ws := Some OPEN\<rparr>)))) ''1''
     = Some (fst (send ''getStatus'' None (new_G2 True\<lparr>ws := Some OPEN\<rparr>)))
   \<and> promises (snd (handleMessage
        (map_of [(''{"id":"1","result":{"connected":true},"error":{"code":"E1","message":"busy"}}'',
                  JObj [(''id'', JStr ''1''), (''result'', JObj [(''connected'', JBool True)]),
                        (''error'', JObj [(''code'', JStr ''E1''), (''message'', JStr ''busy'')])])])
        ''{"id":"1","result":{"connected":true},"error":{"code":"E1","message":"busy"}}''
        (snd (send ''getStatus'' None (new_G2 True\<lparr>ws := Some OPEN\<rparr>)))))
      ! fst (send ''getStatus'' None (new_G2 True\<lparr>ws := Some OPEN\<rparr>))
     = Rejected (BridgeError (Some (JStr ''E1'')) (Some (JStr ''busy'')))
   \<and> handleMessage
        (map_of [(''{"id":"1","event":"response","result":{"connected":true}}'',
                  JObj [(''id'', JStr ''1''), (''event'', JStr ''response''),
                        (''result'', JObj [(''connected'', JBool True)])])])
        ''{"id":"1","event":"response","result":{"connected":true}}''
        (snd (send ''getStatus'' None (new_G2 True\<lparr>ws := Some OPEN\<rparr>)))
     = (Normal, snd (send ''getStatus'' None (new_G2 True\<lparr>ws := Some OPEN\<rparr>)))
   \<and> pending (snd (send ''getStatus'' None (new_G2 True\<lparr>ws := Some OPEN\<rparr>))) = [(''1'', 0)]
   \<and> promises (snd (send ''getStatus'' None (new_G2 True\<lparr>ws := Some OPEN\<rparr>))) = [Pending]\<close>
  by (simp add: new_G2_def new_send_1 handleMessage_def Let_def settle_def emit_def
      handlers_of_def)

section \<open>Event dispatch\<close>

lemma on_shape: "\<exists>l. on e h s = s\<lparr>listeners := l\<rparr>"
  unfolding on_def Let_def by (rule exI) (rule refl)

lemma off_shape: "\<exists>l. off e i s = s\<lparr>listeners := l\<rparr>"
proof (cases "map_of (listeners s) e")
  case None
  then have "off e i s = s\<lparr>listeners := listeners s\<rparr>" by (simp add: off_def)
  then show ?thesis by (rule exI)
next
  case (Some hs)
  then have "off e i s = s\<lparr>listeners :=
      AList.update e (filter (\<lambda>h. handler_id h \<noteq> i) hs) (listeners s)\<rparr>"
    by (simp add: off_def)
  then show ?thesis by (rule exI)
qed

lemma perform_shape: "\<exists>l. snd (perform event c (todo, s)) = s\<lparr>listeners := l\<rparr>"
  using on_shape off_shape by (cases c) simp_all

lemma fold_perform_shape: "\<exists>l. snd (fold (perform event) cs (todo, s)) = s\<lparr>listeners := l\<rparr>"
proof (induction cs arbitrary: todo s)
  case Nil
  show ?case by (simp add: exI [of _ "listeners s"])
next
  case (Cons c cs)
  obtain l where l: "snd (perform event c (todo, s)) = s\<lparr>listeners := l\<rparr>"
    using perform_shape by blast
  obtain m where "snd (fold (perform event) cs
      (fst (perform event c (todo, s)), s\<lparr>listeners := l\<rparr>)) = s\<lparr>listeners := l\<rparr>\<lparr>listeners := m\<rparr>"
    using Cons.IH by blast
  moreover have "perform event c (todo, s) = (fst (perform event c (todo, s)), s\<lparr>listeners := l\<rparr>)"
    using l by (simp add: prod_eq_iff)
  ultimately have "snd (fold (perform event) (c # cs) (todo, s)) = s\<lparr>listeners := m\<rparr>"
    by simp
  then show ?case by (rule exI)
qed

lemma dispatch_shape: "\<exists>c l. dispatch event data todo s = s\<lparr>calls := c, listeners := l\<rparr>"
proof (induction event data todo s rule: dispatch.induct)
  case (1 event data s)
  show ?case by (simp add: exI [of _ "calls s"] exI [of _ "listeners s"])
next
  case (2 event data h todo s)
  let ?s1 = "s\<lparr>calls := calls s @ [(handler_id h, data)]\<rparr>"
  obtain todo' s' where f: "fold (perform event) (handler_body h) (todo, ?s1) = (todo', s')"
    by (cases "fold (perform event) (handler_body h) (todo, ?s1)")
  obtain l where "s' = ?s1\<lparr>listeners := l\<rparr>"
    using fold_perform_shape [of event "handler_body h" todo ?s1] f by auto
  moreover obtain c m where "dispatch event data todo' s' = s'\<lparr>calls := c, listeners := m\<rparr>"
    using 2 [OF f [symmetric]] by blast
  ultimately show ?case
    using f by auto
qed

lemma emit_shape: "\<exists>c l. emit event data s = s\<lparr>calls := c, listeners := l\<rparr>"
proof (cases "\<exists>e. event = Some (JStr e)")
  case True
  then show ?thesis using dispatch_shape by (auto simp: emit_def)
next
  case False
  then have "emit event data s = s"
    by (auto simp: emit_def split: option.splits json.splits)
  then show ?thesis by (simp add: exI [of _ "calls s"] exI [of _ "listeners s"])
qed

text \<open>
  Calls of \<open>on\<close> and \<open>off\<close> for other events leave the iteration over the set of
  \<open>event\<close> and that set as they are.
\<close>

lemma perform_other_event:
  assumes "call_event c \<noteq> event"
  shows "\<exists>l. perform event c (todo, s) = (todo, s\<lparr>listeners := l\<rparr>)
     \<and> map_of l event = map_of (listeners s) event"
proof (cases c)
  case (CallOn e h)
  then show ?thesis using assms
    by (intro exI [of _ "listeners (on e h s)"]) (simp add: on_def Let_def update_conv')
next
  case (CallOff e i)
  then show ?thesis using assms
    by (intro exI [of _ "listeners (off e i s)"])
      (cases "map_of (listeners s) e"; simp add: off_def update_conv')
qed

lemma fold_perform_other_events:
  assumes "\<forall>c \<in> set cs. call_event c \<noteq> event"
  shows "\<exists>l. fold (perform event) cs (todo, s) = (todo, s\<lparr>listeners := l\<rparr>)
     \<and> map_of l event = map_of (listeners s) event"
  using assms
proof (induction cs arbitrary: s)
  case Nil
  show ?case by (simp add: exI [of _ "listeners s"])
next
  case (Cons c cs)
  obtain l where l: "perform event c (todo, s) = (todo, s\<lparr>listeners := l\<rparr>)"
    "map_of l event = map_of (listeners s) event"
    using perform_other_event [of c event todo s] Cons.prems by auto
  obtain m where "fold (perform event) cs (todo, s\<lparr>listeners := l\<rparr>)
      = (todo, s\<lparr>listeners := l\<rparr>\<lparr>listeners := m\<rparr>)"
    "map_of m event = map_of (listeners (s\<lparr>listeners := l\<rparr>)) event"
    using Cons.IH [of "s\<lparr>listeners := l\<rparr>"] Cons.prems by auto
  with l show ?case by auto
qed

lemma dispatch_undisturbed:
  assumes "\<forall>h \<in> set todo. \<forall>c \<in> set (handler_body h). call_event c \<noteq> event"
  shows "\<exists>l. dispatch event data todo s
           = s\<lparr>calls := calls s @ map (\<lambda>h. (handler_id h, data)) todo, listeners := l\<rparr>
     \<and> map_of l event = map_of (listeners s) event"
  using assms
proof (induction todo arbitrary: s)
  case Nil
  show ?case by (simp add: exI [of _ "listeners s"])
next
  case (Cons h todo)
  let ?s1 = "s\<lparr>calls := calls s @ [(handler_id h, data)]\<rparr>"
  obtain l where l: "fold (perform event) (handler_body h) (todo, ?s1) = (todo, ?s1\<lparr>listeners := l\<rparr>)"
    "map_of l event = map_of (listeners ?s1) event"
    using fold_perform_other_events [of "handler_body h" event todo ?s1] Cons.prems by auto
  obtain m where "dispatch event data todo (?s1\<lparr>listeners := l\<rparr>)
      = ?s1\<lparr>listeners := l\<rparr>\<lparr>calls := calls (?s1\<lparr>listeners := l\<rparr>) @ map (\<lambda>h. (handler_id h, data)) todo,
                              listeners := m\<rparr>"
    "map_of m event = map_of (listeners (?s1\<lparr>listeners := l\<rparr>)) event"
    using Cons.IH [of "?s1\<lparr>listeners := l\<rparr>"] Cons.prems by auto
  with l show ?case by auto
qed

section \<open>Messages that match no pending request\<close>

text \<open>
  C4, as the code has it. A JSON object with an \<open>event\<close> member that is a string is
  emitted, whatever the pending map holds: if no handler registered for that name calls
  \<open>on\<close> or \<open>off\<close> for that name while it runs, then every handler registered for it is
  called once, in registration order, with the \<open>data\<close> member (the empty object when
  absent or null), the set of the event is as before, and nothing but the listener
  registry has changed. A JSON object without an \<open>event\<close> member whose \<open>id\<close> finds no
  pending request is dropped: the state is unchanged and no handler is called.
\<close>

theorem handleMessage_event_or_drop:
  "JSON_parse raw = Some (JObj kvs) \<Longrightarrow>
   (map_of kvs ''event'' = Some (JStr e)
      \<and> (\<forall>h \<in> set (handlers_of e s). \<forall>c \<in> set (handler_body h). call_event c \<noteq> e) \<longrightarrow>
      fst (handleMessage JSON_parse raw s) = Normal
      \<and> snd (handleMessage JSON_parse raw s)
          = s\<lparr>calls := calls s @ map (\<lambda>h. (handler_id h, or_empty_object (map_of kvs ''data'')))
                                    (handlers_of e s),
              listeners := listeners (snd (handleMessage JSON_parse raw s))\<rparr>
      \<and> handlers_of e (snd (handleMessage JSON_parse raw s)) = handlers_of e s)
   \<and> (map_of kvs ''event'' = None \<and> pending_get (map_of kvs ''id'') (pending s) = None \<longrightarrow>
      handleMessage JSON_parse raw s = (Normal, s))"
proof (intro conjI impI)
  assume p: "JSON_parse raw = Some (JObj kvs)"
  {
    assume "map_of kvs ''event'' = None \<and> pending_get (map_of kvs ''id'') (pending s) = None"
    with p show "handleMessage JSON_parse raw s = (Normal, s)"
      by (simp add: handleMessage_def)
  }
  assume a: "map_of kvs ''event'' = Some (JStr e)
      \<and> (\<forall>h \<in> set (handlers_of e s). \<forall>c \<in> set (handler_body h). call_event c \<noteq> e)"
  let ?data = "or_empty_object (map_of kvs ''data'')"
  have hm: "handleMessage JSON_parse raw s = (Normal, dispatch e ?data (handlers_of e s) s)"
    using p a by (simp add: handleMessage_def emit_def)
  obtain l where l: "dispatch e ?data (handlers_of e s) s
           = s\<lparr>calls := calls s @ map (\<lambda>h. (handler_id h, ?data)) (handlers_of e s), listeners := l\<rparr>"
    "map_of l e = map_of (listeners s) e"
    using dispatch_undisturbed [of "handlers_of e s" e ?data s] a by blast
  show "fst (handleMessage JSON_parse raw s) = Normal"
    by (simp add: hm)
  show "snd (handleMessage JSON_parse raw s)
          = s\<lparr>calls := calls s @ map (\<lambda>h. (handler_id h, ?data)) (handlers_of e s),
              listeners := listeners (snd (handleMessage JSON_parse raw s))\<rparr>"
    by (simp add: hm l(1))
  show "handlers_of e (snd (handleMessage JSON_parse raw s)) = handlers_of e s"
    unfolding hm snd_conv l(1) using l(2) by (simp add: handlers_of_def)
qed

theorem handleMessage_event_or_drop_witness:
  \<open>handlers_of ''response''
      (on ''response'' (Handler 2 [CallOn ''disconnected'' (Handler 3 [])])
        (on ''connected'' (Handler 1 [CallOff ''connected'' 1])
          (on ''response'' (Handler 0 []) (new_G2 True))))
     = [Handler 0 [], Handler 2 [CallOn ''disconnected'' (Handler 3 [])]]
   \<and> handleMessage
      (map_of [(''{"event":"response","data":{"raw":"0a"}}'',
                JObj [(''event'', JStr ''response''), (''data'', JObj [(''raw'', JStr ''0a'')])])])
      ''{"event":"response","data":{"raw":"0a"}}''
      (on ''response'' (Handler 2 [CallOn ''disconnected'' (Handler 3 [])])
        (on ''connected'' (Handler 1 [CallOff ''connected'' 1])
          (on ''response'' (Handler 0 []) (new_G2 True))))
    = (Normal,
       on ''disconnected'' (Handler 3 [])
        (on ''response'' (Handler 2 [CallOn ''disconnected'' (Handler 3 [])])
          (on ''connected'' (Handler 1 [CallOff ''connected'' 1])
            (on ''response'' (Handler 0 []) (new_G2 True))))
         \<lparr>calls := [(0, JObj [(''raw'', JStr ''0a'')]), (2, JObj [(''raw'', JStr ''0a'')])]\<rparr>)
   \<and> handleMessage
      (map_of [(''{"id":"7","result":{}}'', JObj [(''id'', JStr ''7''), (''result'', JObj [])])])
      ''{"id":"7","result":{}}''
      (on ''response'' (Handler 2 [CallOn ''disconnected'' (Handler 3 [])])
        (on ''connected'' (Handler 1 [CallOff ''connected'' 1])
          (on ''response'' (Handler 0 []) (new_G2 True))))
    = (Normal,
       on ''response'' (Handler 2 [CallOn ''disconnected'' (Handler 3 [])])
        (on ''connected'' (Handler 1 [CallOff ''connected'' 1])
          (on ''response'' (Handler 0 []) (new_G2 True))))\<close>
  using handleMessage_event_or_drop
    [of \<open>map_of [(''{"event":"response","data":{"raw":"0a"}}'',
                JObj [(''event'', JStr ''response''), (''data'', JObj [(''raw'', JStr ''0a'')])])]\<close>
        \<open>''{"event":"response","data":{"raw":"0a"}}''\<close>
        \<open>[(''event'', JStr ''response''), (''data'', JObj [(''raw'', JStr ''0a'')])]\<close>
        \<open>''response''\<close>
        \<open>on ''response'' (Handler 2 [CallOn ''disconnected'' (Handler 3 [])])
          (on ''connected'' (Handler 1 [CallOff ''connected'' 1])
            (on ''response'' (Handler 0 []) (new_G2 True)))\<close>]
    handleMessage_event_or_drop
    [of \<open>map_of [(''{"id":"7","result":{}}'', JObj [(''id'', JStr ''7''), (''result'', JObj [])])]\<close>
        \<open>''{"id":"7","result":{}}''\<close>
        \<open>[(''id'', JStr ''7''), (''result'', JObj [])]\<close>
        \<open>''response''\<close>
        \<open>on ''response'' (Handler 2 [CallOn ''disconnected'' (Handler 3 [])])
          (on ''connected'' (Handler 1 [CallOff ''connected'' 1])
            (on ''response'' (Handler 0 []) (new_G2 True)))\<close>]
  by (simp add: handleMessage_def emit_def on_def handlers_of_def new_G2_def Let_def)

text \<open>
  C4 as stated fails: with handlers registered for all three events and nothing pending, a
  response-shaped message with an unknown \<open>id\<close> reaches no handler. And an event does
  not reach every listener registered when it arrives if a handler changes the set while
  it runs: below, the first handler of \<open>response\<close> removes the second one, which is not
  called, and registers a new one, which is.
\<close>

theorem unmatched_message_dropped_counterexample:
  \<open>pending_get (Some (JStr ''7''))
      (pending (on ''response'' (Handler 2 [])
                 (on ''disconnected'' (Handler 1 []) (on ''connected'' (Handler 0 []) (new_G2 True)))))
     = None
   \<and> listeners (on ''response'' (Handler 2 [])
                 (on ''disconnected'' (Handler 1 []) (on ''connected'' (Handler 0 []) (new_G2 True))))
       = [(''connected'', [Handler 0 []]), (''disconnected'', [Handler 1 []]),
          (''response'', [Handler 2 []])]
   \<and> calls (snd (handleMessage
        (map_of [(''{"id":"7","result":{"raw":"0a"}}'',
                  JObj [(''id'', JStr ''7''), (''result'', JObj [(''raw'', JStr ''0a'')])])])
        ''{"id":"7","result":{"raw":"0a"}}''
        (on ''response'' (Handler 2 [])
          (on ''disconnected'' (Handler 1 []) (on ''connected'' (Handler 0 []) (new_G2 True))))))
     = []
   \<and> handlers_of ''response''
        (on ''response'' (Handler 5 [])
          (on ''response''
             (Handler 4 [CallOff ''response'' 5, CallOn ''response'' (Handler 6 [])])
             (new_G2 True)))
     = [Handler 4 [CallOff ''response'' 5, CallOn ''response'' (Handler 6 [])], Handler 5 []]
   \<and> calls (snd (handleMessage
        (map_of [(''{"event":"response","data":{"raw":"0a"}}'',
                  JObj [(''event'', JStr ''response''), (''data'', JObj [(''raw'', JStr ''0a'')])])])
        ''{"event":"response","data":{"raw":"0a"}}''
        (on ''response'' (Handler 5 [])
          (on ''response''
             (Handler 4 [CallOff ''response'' 5, CallOn ''response'' (Handler 6 [])])
             (new_G2 True)))))
     = [(4, JObj [(''raw'', JStr ''0a'')]), (6, JObj [(''raw'', JStr ''0a'')])]\<close>
  by (simp add: handleMessage_def emit_def on_def off_def handlers_of_def new_G2_def Let_def)
section \<open>Keys and counters\<close>

lemma digit_char_inj:
  "a < 10 \<Longrightarrow> b < 10 \<Longrightarrow> digit_char a = digit_char b \<Longrightarrow> a = b"
proof -
  assume a: "a < 10" and b: "b < 10" and e: "digit_char a = digit_char b"
  have d: "distinct ''0123456789abcdef''" by simp
  have "a < length ''0123456789abcdef''" "b < length ''0123456789abcdef''"
    using a b by simp_all
  with d e show "a = b"
    unfolding digit_char_def by (simp only: nth_eq_iff_index_eq)
qed

lemma String_nat_nonempty: "String_nat n \<noteq> []"
  by (subst String_nat.simps) simp

lemma String_nat_inj: "String_nat m = String_nat n \<Longrightarrow> m = n"
proof (induction m arbitrary: n rule: less_induct)
  case (less m)
  have em: "String_nat m =
      (if m < 10 then [digit_char m] else String_nat (m div 10) @ [digit_char (m mod 10)])"
    by (rule String_nat.simps)
  have en: "String_nat n =
      (if n < 10 then [digit_char n] else String_nat (n div 10) @ [digit_char (n mod 10)])"
    by (rule String_nat.simps)
  show ?case
  proof (cases "m < 10")
    case m: True
    show ?thesis
    proof (cases "n < 10")
      case True
      with m less.prems em en show ?thesis by (simp add: digit_char_inj)
    next
      case False
      with m less.prems em en String_nat_nonempty [of "n div 10"] show ?thesis by simp
    qed
  next
    case m: False
    show ?thesis
    proof (cases "n < 10")
      case True
      with m less.prems em en String_nat_nonempty [of "m div 10"] show ?thesis by simp
    next
      case False
      with m less.prems em en
      have "String_nat (m div 10) = String_nat (n div 10)"
        and "digit_char (m mod 10) = digit_char (n mod 10)" by simp_all
      moreover have "m div 10 < m" using m by simp
      ultimately have "m div 10 = n div 10" and "m mod 10 = n mod 10"
        using less.IH digit_char_inj [of "m mod 10" "n mod 10"] by simp_all
      then show ?thesis by (metis div_mult_mod_eq)
    qed
  qed
qed

lemma run_append: "run P (xs @ ys) s = run P ys (run P xs s)"
  by (induction xs arbitrary: s) simp_all

lemma handleMessage_shape:
  "(\<exists>c l. snd (handleMessage P raw s) = s\<lparr>calls := c, listeners := l\<rparr>)
   \<or> (\<exists>K req kvs. P raw = Some (JObj kvs) \<and> map_of kvs ''event'' = None
        \<and> map_of kvs ''id'' = Some (JStr K) \<and> map_of (pending s) K = Some req
        \<and> (snd (handleMessage P raw s) = s\<lparr>pending := AList.delete K (pending s)\<rparr>
           \<or> (\<exists>v. snd (handleMessage P raw s)
                  = s\<lparr>pending := AList.delete K (pending s), promises := settle req v (promises s)\<rparr>)))"
proof (cases "P raw")
  case None
  then have "snd (handleMessage P raw s) = s\<lparr>calls := calls s, listeners := listeners s\<rparr>"
    by (simp add: handleMessage_def)
  then show ?thesis by blast
next
  case (Some msg)
  show ?thesis
  proof (cases "has_prop ''event'' msg")
    case None
    with Some have "snd (handleMessage P raw s) = s\<lparr>calls := calls s, listeners := listeners s\<rparr>"
      by (simp add: handleMessage_def)
    then show ?thesis by blast
  next
    case ev: (Some b)
    show ?thesis
    proof (cases b)
      case True
      with Some ev have "\<exists>c l. snd (handleMessage P raw s) = s\<lparr>calls := c, listeners := l\<rparr>"
        using emit_shape [of "get_prop ''event'' msg" "or_empty_object (get_prop ''data'' msg)" s]
        by (simp add: handleMessage_def)
      then show ?thesis by blast
    next
      case False
      show ?thesis
      proof (cases "pending_get (get_prop ''id'' msg) (pending s)")
        case None
        with Some ev False
        have "snd (handleMessage P raw s) = s\<lparr>calls := calls s, listeners := listeners s\<rparr>"
          by (simp add: handleMessage_def)
        then show ?thesis by blast
      next
        case req: (Some req)
        then obtain K where K: "get_prop ''id'' msg = Some (JStr K)"
          and m: "map_of (pending s) K = Some req"
          by (auto elim: pending_get.elims)
        from K obtain kvs where kvs: "msg = JObj kvs" "map_of kvs ''id'' = Some (JStr K)"
          by (cases msg) simp_all
        from ev False kvs have noev: "map_of kvs ''event'' = None" by simp
        have "snd (handleMessage P raw s) = s\<lparr>pending := AList.delete K (pending s)\<rparr>
           \<or> (\<exists>v. snd (handleMessage P raw s)
                  = s\<lparr>pending := AList.delete K (pending s), promises := settle req v (promises s)\<rparr>)"
          using Some ev False req K
          by (auto simp: handleMessage_def Let_def split: option.splits json.splits)
        with m kvs noev Some show ?thesis by blast
      qed
    qed
  qed
qed

lemma client_inv_cong:
  "idCounter t = idCounter s \<Longrightarrow> pending t = pending s \<Longrightarrow> promises t = promises s \<Longrightarrow>
   outbox t = outbox s \<Longrightarrow> client_inv t = client_inv s"
  by (simp add: client_inv_def issued_def)

lemma client_inv_new: "client_inv (new_G2 auto)"
  by (simp add: client_inv_def issued_def new_G2_def)

lemma client_inv_onclose: "client_inv s \<Longrightarrow> client_inv (onclose s)"
  by (simp add: client_inv_def issued_def onclose_def Let_def scheduleReconnect_def)

lemma client_inv_handleMessage:
  assumes inv: "client_inv s"
  shows "client_inv (snd (handleMessage P raw s))"
proof -
  consider (calls) c l where "snd (handleMessage P raw s) = s\<lparr>calls := c, listeners := l\<rparr>"
    | (deleted) K req where "map_of (pending s) K = Some req"
        "snd (handleMessage P raw s) = s\<lparr>pending := AList.delete K (pending s)\<rparr>"
    | (settled) K req v where "map_of (pending s) K = Some req"
        "snd (handleMessage P raw s)
           = s\<lparr>pending := AList.delete K (pending s), promises := settle req v (promises s)\<rparr>"
    using handleMessage_shape [of P raw s] by blast
  then show ?thesis
  proof cases
    case calls
    then show ?thesis
      using inv client_inv_cong [of "s\<lparr>calls := c, listeners := l\<rparr>" s] by simp
  next
    case deleted
    show ?thesis
      unfolding deleted(2) using inv
      by (simp add: client_inv_def issued_def delete_conv' distinct_delete)
  next
    case settled
    have other: "r \<noteq> req" if "k \<noteq> K" "map_of (pending s) k = Some r" for k r
      using that settled(1) inv unfolding client_inv_def by blast
    show ?thesis
      unfolding settled(2) using inv other
      by (simp add: client_inv_def issued_def delete_conv' distinct_delete settle_nth)
  qed
qed

lemma js_incr_ge: "n \<le> js_incr n"
  by (simp add: js_incr_def)

lemma js_incr_pos: "1 \<le> js_incr n"
  by (simp add: js_incr_def)

lemma js_incr_less: "js_incr n < 2 ^ 53 \<Longrightarrow> n < 2 ^ 53 \<and> js_incr n = Suc n"
  by (simp add: js_incr_def split: if_splits)

lemma client_inv_send:
  assumes inv: "client_inv s"
  shows "client_inv (snd (send method params s))"
proof (cases "ws s = Some OPEN")
  case False
  have old: "r < length (promises s) \<and> promises s ! r = Pending"
    if "map_of (pending s) k = Some r" for k r
    using that inv unfolding client_inv_def by blast
  have s': "snd (send method params s) = s\<lparr>promises := promises s @ [Rejected NotConnected]\<rparr>"
    by (simp add: send_not_connected [OF False])
  have "r < length (promises s @ [Rejected NotConnected])
      \<and> (promises s @ [Rejected NotConnected]) ! r = Pending"
    if "map_of (pending s) k = Some r" for k r
    using old [OF that] by (simp add: nth_append)
  then show ?thesis
    unfolding s' using inv
    by (simp add: client_inv_def issued_def del: upt_Suc)
next
  case True
  let ?K = "String_nat (js_incr (idCounter s))"
  let ?p = "length (promises s)"
  let ?s' = "snd (send method params s)"
  have s': "?s' = s\<lparr>promises := promises s @ [Pending],
        idCounter := js_incr (idCounter s),
        pending := AList.update ?K ?p (pending s),
        outbox := outbox s @ [JObj ([(''id'', JStr ?K), (''method'', JStr method)]
                         @ (case params of None \<Rightarrow> [] | Some ps \<Rightarrow> [(''params'', ps)]))]\<rparr>"
    by (simp add: send_connected [OF True])
  have old: "r < length (promises s) \<and> promises s ! r = Pending
           \<and> (\<exists>n. 1 \<le> n \<and> n \<le> idCounter s \<and> k = String_nat n)"
    if "map_of (pending s) k = Some r" for k r
    using that inv unfolding client_inv_def by blast
  have inj: "k = k'" if "map_of (pending s) k = Some r" "map_of (pending s) k' = Some r" for k k' r
    using that inv unfolding client_inv_def by blast
  have c1: "idCounter ?s' \<le> 2 ^ 53"
    using inv by (simp add: s' client_inv_def js_incr_def)
  have c2: "distinct (map fst (pending ?s'))"
    using inv by (simp add: s' client_inv_def distinct_update)
  have c3: "r < length (promises ?s') \<and> promises ?s' ! r = Pending
           \<and> (\<exists>n. 1 \<le> n \<and> n \<le> idCounter ?s' \<and> k = String_nat n)"
    if m: "map_of (pending ?s') k = Some r" for k r
  proof (cases "k = ?K")
    case True
    with m have "r = ?p" by (simp add: s' update_conv')
    then show ?thesis
      using True js_incr_pos [of "idCounter s"] by (auto simp: s')
  next
    case False
    with m have "map_of (pending s) k = Some r" by (simp add: s' update_conv')
    from old [OF this] show ?thesis
      using js_incr_ge [of "idCounter s"] by (auto simp: s' nth_append intro: le_trans)
  qed
  have c4: "k = k'"
    if m: "map_of (pending ?s') k = Some r" "map_of (pending ?s') k' = Some r" for k k' r
  proof -
    have v: "map_of (pending ?s') x = Some y \<Longrightarrow>
        (x = ?K \<and> y = ?p) \<or> (x \<noteq> ?K \<and> map_of (pending s) x = Some y \<and> y < ?p)" for x y
      using old [of x y] by (auto simp: s' update_conv' split: if_splits)
    from v [OF m(1)] v [OF m(2)] show ?thesis
      using inj by auto
  qed
  have c5: "issued ?s' = map (\<lambda>n. Some (JStr (String_nat n))) [1 ..< Suc (idCounter ?s')]"
    if "idCounter ?s' < 2 ^ 53"
  proof -
    from that have lt: "idCounter s < 2 ^ 53" and eq: "js_incr (idCounter s) = Suc (idCounter s)"
      using js_incr_less [of "idCounter s"] by (simp_all add: s')
    from inv lt have "issued s = map (\<lambda>n. Some (JStr (String_nat n))) [1 ..< Suc (idCounter s)]"
      unfolding client_inv_def by blast
    then show ?thesis
      by (simp add: s' issued_def eq)
  qed
  show ?thesis
    unfolding client_inv_def using c1 c2 c3 c4 c5 by blast
qed

lemma client_inv_step: "client_inv s \<Longrightarrow> client_inv (step P x s)"
proof (cases x)
  case ConnectBridge
  assume "client_inv s"
  then show ?thesis
    using client_inv_cong [of "connectBridge s" s] by (simp add: ConnectBridge connectBridge_def)
next
  case SocketOpen
  assume "client_inv s"
  then show ?thesis
    using client_inv_cong [of "s\<lparr>ws := Some OPEN\<rparr>" s] by (simp add: SocketOpen)
next
  case SocketClose
  assume "client_inv s"
  then have "client_inv (s\<lparr>ws := map_option (\<lambda>r. CLOSED) (ws s)\<rparr>)"
    using client_inv_cong [of "s\<lparr>ws := map_option (\<lambda>r. CLOSED) (ws s)\<rparr>" s] by simp
  then show ?thesis by (simp add: SocketClose client_inv_onclose)
next
  case OldSocketClose
  assume "client_inv s"
  then show ?thesis by (simp add: OldSocketClose client_inv_onclose)
next
  case (SocketMessage raw)
  assume "client_inv s"
  then show ?thesis by (simp add: SocketMessage client_inv_handleMessage)
next
  case (Send m ps)
  assume "client_inv s"
  then show ?thesis by (simp add: Send client_inv_send)
next
  case CloseBridge
  assume "client_inv s"
  then show ?thesis
    using client_inv_cong [of "closeBridge s" s] by (simp add: CloseBridge closeBridge_def)
next
  case (On e h)
  assume "client_inv s"
  then show ?thesis
    using client_inv_cong [of "on e h s" s] by (simp add: On on_def Let_def)
next
  case (Off e h)
  assume "client_inv s"
  then show ?thesis
    using client_inv_cong [of "off e h s" s] by (simp add: Off off_def split: option.splits)
next
  case TimerFires
  assume "client_inv s"
  then show ?thesis
    using client_inv_cong [of "step P TimerFires s" s]
    by (simp add: TimerFires reconnect_callback_def connectBridge_def Let_def)
next
  case ReconnectFailed
  assume "client_inv s"
  then show ?thesis
    using client_inv_cong [of "scheduleReconnect s" s] by (simp add: ReconnectFailed)
qed

lemma client_inv_run: "client_inv s \<Longrightarrow> client_inv (run P ops s)"
  by (induction ops arbitrary: s) (simp_all add: client_inv_step)

lemma update_absent: "map_of al k = None \<Longrightarrow> AList.update k v al = al @ [(k, v)]"
  by (induction al) (auto split: if_splits)

lemma inj_String_key: "inj (\<lambda>n. Some (JStr (String_nat n)))"
  by (auto simp: inj_def dest: String_nat_inj)

lemma String_nat_small: "n < 10 \<Longrightarrow> String_nat n = [digit_char n]"
  by (subst String_nat.simps) simp

lemma String_nat_big:
  "10 \<le> n \<Longrightarrow> String_nat n = String_nat (n div 10) @ [digit_char (n mod 10)]"
  by (subst String_nat.simps) simp

section \<open>Fresh keys\<close>

text \<open>
  C8, as the code has it. In any state a run of one instance reaches with the socket open and
  \<open>idCounter\<close> below \<open>2 ^ 53\<close>, the key \<open>String(++idCounter)\<close> of the next
  \<open>send\<close> is in no entry of the pending map and differs from the key of every earlier
  \<open>send\<close>, which are pairwise distinct; so \<open>send\<close> appends its entry and overwrites
  none, and the keys of the pending map stay pairwise distinct.
\<close>

theorem send_key_fresh:
  assumes s: "s = run P ops (new_G2 auto)"
    and "open": "ws s = Some OPEN"
    and lt: "idCounter s < 2 ^ 53"
  shows "map_of (pending s) (String_nat (js_incr (idCounter s))) = None
     \<and> Some (JStr (String_nat (js_incr (idCounter s)))) \<notin> set (issued s)
     \<and> distinct (issued s)
     \<and> pending (snd (send method params s))
         = pending s @ [(String_nat (js_incr (idCounter s)), fst (send method params s))]
     \<and> distinct (map fst (pending (snd (send method params s))))"
proof -
  have inv: "client_inv s"
    unfolding s by (rule client_inv_run [OF client_inv_new])
  have incr: "js_incr (idCounter s) = Suc (idCounter s)"
    using lt by (simp add: js_incr_def)
  have iss: "issued s = map (\<lambda>n. Some (JStr (String_nat n))) [1 ..< Suc (idCounter s)]"
    using inv lt unfolding client_inv_def by blast
  have absent: "map_of (pending s) (String_nat (js_incr (idCounter s))) = None"
  proof (rule ccontr)
    assume "map_of (pending s) (String_nat (js_incr (idCounter s))) \<noteq> None"
    then obtain r where "map_of (pending s) (String_nat (js_incr (idCounter s))) = Some r"
      by blast
    with inv obtain n where "n \<le> idCounter s" "String_nat (js_incr (idCounter s)) = String_nat n"
      unfolding client_inv_def by blast
    then show False using String_nat_inj incr by fastforce
  qed
  have new: "Some (JStr (String_nat (js_incr (idCounter s)))) \<notin> set (issued s)"
    unfolding iss incr by (auto simp del: upt_Suc dest: String_nat_inj)
  have dist: "distinct (issued s)"
    unfolding iss using inj_on_subset [OF inj_String_key subset_UNIV]
    by (simp add: distinct_map del: upt_Suc)
  have app: "pending (snd (send method params s))
         = pending s @ [(String_nat (js_incr (idCounter s)), fst (send method params s))]"
    using absent by (simp add: send_connected [OF "open"] update_absent)
  have "client_inv (snd (send method params s))"
    using inv by (rule client_inv_send)
  then have "distinct (map fst (pending (snd (send method params s))))"
    unfolding client_inv_def by blast
  with absent new dist app show ?thesis by blast
qed

theorem send_key_fresh_witness:
  "ws (run (map_of []) [ConnectBridge, SocketOpen, Send ''connect'' None] (new_G2 True)) = Some OPEN
   \<and> idCounter (run (map_of []) [ConnectBridge, SocketOpen, Send ''connect'' None] (new_G2 True)) < 2 ^ 53
   \<and> issued (run (map_of []) [ConnectBridge, SocketOpen, Send ''connect'' None] (new_G2 True))
       = [Some (JStr ''1'')]
   \<and> String_nat (js_incr (idCounter
         (run (map_of []) [ConnectBridge, SocketOpen, Send ''connect'' None] (new_G2 True)))) = ''2''
   \<and> pending (snd (send ''setText'' (Some (JObj [(''text'', JStr ''hi'')]))
         (run (map_of []) [ConnectBridge, SocketOpen, Send ''connect'' None] (new_G2 True))))
       = [(''1'', 0), (''2'', 1)]"
  using send_key_fresh
    [of "run (map_of []) [ConnectBridge, SocketOpen, Send ''connect'' None] (new_G2 True)"
        "map_of []" "[ConnectBridge, SocketOpen, Send ''connect'' None]" True
        "''setText''" "Some (JObj [(''text'', JStr ''hi'')])"]
  by (simp add: connectBridge_def new_G2_def send_def Let_def js_incr_def String_nat_small
      digit_char_def issued_def)

lemma connected_client:
  "run P [ConnectBridge, SocketOpen] (new_G2 auto) = new_G2 auto\<lparr>ws := Some OPEN\<rparr>"
  by (simp add: connectBridge_def new_G2_def)

lemma run_cycle:
  assumes "ws s = Some OPEN" "pending s = []" "idCounter s < 2 ^ 53"
  shows "ws (run P [Send m ps, SocketClose, ConnectBridge, SocketOpen] s) = Some OPEN
     \<and> pending (run P [Send m ps, SocketClose, ConnectBridge, SocketOpen] s) = []
     \<and> idCounter (run P [Send m ps, SocketClose, ConnectBridge, SocketOpen] s) = Suc (idCounter s)
     \<and> length (promises (run P [Send m ps, SocketClose, ConnectBridge, SocketOpen] s))
         = Suc (length (promises s))"
  using assms
  by (simp add: send_connected js_incr_def onclose_def Let_def scheduleReconnect_def
      connectBridge_def)

lemma run_cycles:
  assumes "ws s = Some OPEN" "pending s = []" "idCounter s + n \<le> 2 ^ 53"
  shows "ws (run P (concat (replicate n [Send m ps, SocketClose, ConnectBridge, SocketOpen])) s)
           = Some OPEN
     \<and> pending (run P (concat (replicate n [Send m ps, SocketClose, ConnectBridge, SocketOpen])) s)
           = []
     \<and> idCounter (run P (concat (replicate n [Send m ps, SocketClose, ConnectBridge, SocketOpen])) s)
           = idCounter s + n
     \<and> length (promises
           (run P (concat (replicate n [Send m ps, SocketClose, ConnectBridge, SocketOpen])) s))
           = length (promises s) + n"
  using assms
proof (induction n arbitrary: s)
  case 0
  then show ?case by simp
next
  case (Suc n)
  let ?c = "[Send m ps, SocketClose, ConnectBridge, SocketOpen]"
  let ?s1 = "run P ?c s"
  have lt: "idCounter s < 2 ^ 53" using Suc.prems(3) by simp
  from run_cycle [OF Suc.prems(1,2) lt, of P m ps]
  have s1: "ws ?s1 = Some OPEN" "pending ?s1 = []" "idCounter ?s1 = Suc (idCounter s)"
    "length (promises ?s1) = Suc (length (promises s))"
    by blast+
  have "idCounter ?s1 + n \<le> 2 ^ 53" using Suc.prems(3) s1(3) by simp
  from Suc.IH [OF s1(1,2) this]
  have "ws (run P (concat (replicate n ?c)) ?s1) = Some OPEN
     \<and> pending (run P (concat (replicate n ?c)) ?s1) = []
     \<and> idCounter (run P (concat (replicate n ?c)) ?s1) = idCounter ?s1 + n
     \<and> length (promises (run P (concat (replicate n ?c)) ?s1)) = length (promises ?s1) + n" .
  moreover have "run P (concat (replicate (Suc n) ?c)) s = run P (concat (replicate n ?c)) ?s1"
    by (simp only: replicate_Suc concat.simps run_append)
  ultimately show ?case
    using s1(3,4) by simp
qed

lemma String_nat_limit_numeral: "String_nat 9007199254740992 = ''9007199254740992''"
  by (simp add: String_nat_small String_nat_big digit_char_def)

lemma limit_run:
  "\<exists>t. run (map_of [])
          ([ConnectBridge, SocketOpen]
           @ concat (replicate (2 ^ 53 - 1)
               [Send ''getStatus'' None, SocketClose, ConnectBridge, SocketOpen])
           @ [Send ''getStatus'' None])
          (new_G2 True)
        = t\<lparr>promises := promises t @ [Pending], idCounter := 2 ^ 53,
            pending := [(''9007199254740992'', 2 ^ 53 - 1)],
            outbox := outbox t @ [JObj [(''id'', JStr ''9007199254740992''),
                                        (''method'', JStr ''getStatus'')]]\<rparr>
      \<and> ws t = Some OPEN \<and> length (promises t) = 2 ^ 53 - 1"
proof -
  define M :: nat where "M = 2 ^ 53 - 1"
  define c where "c = new_G2 True\<lparr>ws := Some OPEN\<rparr>"
  define t where "t = run (map_of [])
      (concat (replicate M [Send ''getStatus'' None, SocketClose, ConnectBridge, SocketOpen])) c"
  have c: "ws c = Some OPEN" "pending c = []" "idCounter c = 0" "length (promises c) = 0"
    by (simp_all add: c_def new_G2_def)
  have "idCounter c + M \<le> 2 ^ 53" by (simp add: c M_def)
  from run_cycles [OF c(1,2) this, of "map_of []" "''getStatus''" None]
  have t: "ws t = Some OPEN" "pending t = []" "idCounter t = M" "length (promises t) = M"
    by (simp_all add: t_def c)
  have incr: "js_incr M = 2 ^ 53"
    by (simp add: js_incr_def M_def)
  have "snd (send ''getStatus'' None t) =
      t\<lparr>promises := promises t @ [Pending], idCounter := 2 ^ 53,
        pending := [(''9007199254740992'', M)],
        outbox := outbox t @ [JObj [(''id'', JStr ''9007199254740992''),
                                    (''method'', JStr ''getStatus'')]]\<rparr>"
    by (simp add: send_connected [OF t(1)] t incr String_nat_limit_numeral)
  moreover have "run (map_of [])
          ([ConnectBridge, SocketOpen]
           @ concat (replicate M
               [Send ''getStatus'' None, SocketClose, ConnectBridge, SocketOpen])
           @ [Send ''getStatus'' None])
          (new_G2 True) = snd (send ''getStatus'' None t)"
    unfolding run_append [of _ "[ConnectBridge, SocketOpen]"] connected_client
      run_append [of _ "concat (replicate M [Send ''getStatus'' None, SocketClose, ConnectBridge, SocketOpen])"]
    by (simp only: run.simps step.simps t_def c_def)
  ultimately show ?thesis
    unfolding M_def [symmetric] using t(1,4) by auto
qed

text \<open>
  C8 as stated fails once the counter has reached \<open>2 ^ 53\<close>, where \<open>++\<close> no longer
  changes it. The client below sends a request, loses the connection and reconnects,
  \<open>2 ^ 53 - 1\<close> times, so that no more than one request is ever pending; it then sends
  once more and gets the key \<open>9007199254740992\<close>. The next \<open>send\<close> gets the same key,
  and replaces the entry of the request before it.
\<close>

theorem send_key_repeats_counterexample:
  "String_nat (js_incr (idCounter
      (run (map_of [])
         ([ConnectBridge, SocketOpen]
          @ concat (replicate (2 ^ 53 - 1)
              [Send ''getStatus'' None, SocketClose, ConnectBridge, SocketOpen])
          @ [Send ''getStatus'' None])
         (new_G2 True)))) = ''9007199254740992''
   \<and> last (issued
      (run (map_of [])
         ([ConnectBridge, SocketOpen]
          @ concat (replicate (2 ^ 53 - 1)
              [Send ''getStatus'' None, SocketClose, ConnectBridge, SocketOpen])
          @ [Send ''getStatus'' None])
         (new_G2 True))) = Some (JStr ''9007199254740992'')
   \<and> pending
      (run (map_of [])
         ([ConnectBridge, SocketOpen]
          @ concat (replicate (2 ^ 53 - 1)
              [Send ''getStatus'' None, SocketClose, ConnectBridge, SocketOpen])
          @ [Send ''getStatus'' None])
         (new_G2 True)) = [(''9007199254740992'', 2 ^ 53 - 1)]
   \<and> pending (snd (send ''getStatus'' None
      (run (map_of [])
         ([ConnectBridge, SocketOpen]
          @ concat (replicate (2 ^ 53 - 1)
              [Send ''getStatus'' None, SocketClose, ConnectBridge, SocketOpen])
          @ [Send ''getStatus'' None])
         (new_G2 True)))) = [(''9007199254740992'', 2 ^ 53)]"
proof -
  obtain t where
    run: "run (map_of [])
          ([ConnectBridge, SocketOpen]
           @ concat (replicate (2 ^ 53 - 1)
               [Send ''getStatus'' None, SocketClose, ConnectBridge, SocketOpen])
           @ [Send ''getStatus'' None])
          (new_G2 True)
        = t\<lparr>promises := promises t @ [Pending], idCounter := 2 ^ 53,
            pending := [(''9007199254740992'', 2 ^ 53 - 1)],
            outbox := outbox t @ [JObj [(''id'', JStr ''9007199254740992''),
                                        (''method'', JStr ''getStatus'')]]\<rparr>"
    and t: "ws t = Some OPEN" "length (promises t) = 2 ^ 53 - 1"
    using limit_run by blast
  show ?thesis
    unfolding run using t
    by (simp add: send_def Let_def js_incr_def String_nat_limit_numeral issued_def)
qed

section \<open>Colliding keys\<close>

lemma client_distinct_keys: "distinct (map fst (pending (run P ops (new_G2 auto))))"
  using client_inv_run [OF client_inv_new [of auto], of P ops]
  unfolding client_inv_def by blast

text \<open>
  C5, as the code has it. \<open>send\<close> has no duplicate-key failure. On an open socket it
  always returns an outstanding promise and sets the entry of its key to it, replacing
  whatever that key held and leaving every other key alone; otherwise it rejects with
  \<open>Not connected to bridge\<close> and leaves the map alone. The pending map of a run never
  holds two entries with one key.
\<close>

theorem send_registers_or_not_connected:
  "(ws s = Some OPEN \<longrightarrow>
      promises (snd (send method params s)) ! fst (send method params s) = Pending
      \<and> map_of (pending (snd (send method params s))) (String_nat (js_incr (idCounter s)))
          = Some (fst (send method params s))
      \<and> (\<forall>k. k \<noteq> String_nat (js_incr (idCounter s)) \<longrightarrow>
            map_of (pending (snd (send method params s))) k = map_of (pending s) k))
   \<and> (ws s \<noteq> Some OPEN \<longrightarrow>
      promises (snd (send method params s)) ! fst (send method params s) = Rejected NotConnected
      \<and> pending (snd (send method params s)) = pending s)
   \<and> distinct (map fst (pending (run P ops (new_G2 auto))))"
proof (intro conjI impI allI)
  assume o: "ws s = Some OPEN"
  show "promises (snd (send method params s)) ! fst (send method params s) = Pending"
    by (simp add: send_connected [OF o])
  show "map_of (pending (snd (send method params s))) (String_nat (js_incr (idCounter s)))
          = Some (fst (send method params s))"
    by (simp add: send_connected [OF o] update_conv')
  fix k
  assume "k \<noteq> String_nat (js_incr (idCounter s))"
  then show "map_of (pending (snd (send method params s))) k = map_of (pending s) k"
    by (simp add: send_connected [OF o] update_conv')
next
  assume n: "ws s \<noteq> Some OPEN"
  show "promises (snd (send method params s)) ! fst (send method params s) = Rejected NotConnected"
    by (simp add: send_not_connected [OF n])
  show "pending (snd (send method params s)) = pending s"
    by (simp add: send_not_connected [OF n])
next
  show "distinct (map fst (pending (run P ops (new_G2 auto))))"
    by (rule client_distinct_keys)
qed

theorem send_registers_or_not_connected_witness:
  "ws (run (map_of []) [ConnectBridge, SocketOpen, Send ''connect'' None] (new_G2 True)) = Some OPEN
   \<and> send ''getStatus'' None
        (run (map_of []) [ConnectBridge, SocketOpen, Send ''connect'' None] (new_G2 True))
      = (1, \<lparr>ws = Some OPEN, pending = [(''1'', 0), (''2'', 1)], listeners = [], idCounter = 2,
              closed = False, reconnectTimer = False, autoReconnect = True,
              promises = [Pending, Pending],
              outbox = [JObj [(''id'', JStr ''1''), (''method'', JStr ''connect'')],
                        JObj [(''id'', JStr ''2''), (''method'', JStr ''getStatus'')]],
              calls = []\<rparr>)
   \<and> ws (new_G2 True) \<noteq> Some OPEN
   \<and> send ''getStatus'' None (new_G2 True)
      = (0, \<lparr>ws = None, pending = [], listeners = [], idCounter = 0,
              closed = False, reconnectTimer = False, autoReconnect = True,
              promises = [Rejected NotConnected], outbox = [], calls = []\<rparr>)"
  using send_registers_or_not_connected
    [of "run (map_of []) [ConnectBridge, SocketOpen, Send ''connect'' None] (new_G2 True)"
        "''getStatus''" None "map_of []" "[]" True]
    send_registers_or_not_connected
    [of "new_G2 True" "''getStatus''" None "map_of []" "[]" True]
  by (simp add: connectBridge_def new_G2_def send_def Let_def js_incr_def String_nat_small
      digit_char_def settle_def)

text \<open>
  C5 as stated fails: in the same run the key \<open>9007199254740992\<close> holds an unresolved
  request, and the next \<open>send\<close> collides with it. It does not fail: it returns an
  outstanding promise and overwrites the entry, and the promise of the first request, which
  nothing refers to any more, stays unsettled.
\<close>

theorem send_overwrites_counterexample:
  "ws (run (map_of [])
         ([ConnectBridge, SocketOpen]
          @ concat (replicate (2 ^ 53 - 1)
              [Send ''getStatus'' None, SocketClose, ConnectBridge, SocketOpen])
          @ [Send ''getStatus'' None])
         (new_G2 True)) = Some OPEN
   \<and> pending
      (run (map_of [])
         ([ConnectBridge, SocketOpen]
          @ concat (replicate (2 ^ 53 - 1)
              [Send ''getStatus'' None, SocketClose, ConnectBridge, SocketOpen])
          @ [Send ''getStatus'' None])
         (new_G2 True)) = [(''9007199254740992'', 2 ^ 53 - 1)]
   \<and> promises
      (run (map_of [])
         ([ConnectBridge, SocketOpen]
          @ concat (replicate (2 ^ 53 - 1)
              [Send ''getStatus'' None, SocketClose, ConnectBridge, SocketOpen])
          @ [Send ''getStatus'' None])
         (new_G2 True)) ! (2 ^ 53 - 1) = Pending
   \<and> fst (send ''setText'' None
      (run (map_of [])
         ([ConnectBridge, SocketOpen]
          @ concat (replicate (2 ^ 53 - 1)
              [Send ''getStatus'' None, SocketClose, ConnectBridge, SocketOpen])
          @ [Send ''getStatus'' None])
         (new_G2 True))) = 2 ^ 53
   \<and> promises (snd (send ''setText'' None
      (run (map_of [])
         ([ConnectBridge, SocketOpen]
          @ concat (replicate (2 ^ 53 - 1)
              [Send ''getStatus'' None, SocketClose, ConnectBridge, SocketOpen])
          @ [Send ''getStatus'' None])
         (new_G2 True)))) ! (2 ^ 53) = Pending
   \<and> promises (snd (send ''setText'' None
      (run (map_of [])
         ([ConnectBridge, SocketOpen]
          @ concat (replicate (2 ^ 53 - 1)
              [Send ''getStatus'' None, SocketClose, ConnectBridge, SocketOpen])
          @ [Send ''getStatus'' None])
         (new_G2 True)))) ! (2 ^ 53 - 1) = Pending
   \<and> pending (snd (send ''setText'' None
      (run (map_of [])
         ([ConnectBridge, SocketOpen]
          @ concat (replicate (2 ^ 53 - 1)
              [Send ''getStatus'' None, SocketClose, ConnectBridge, SocketOpen])
          @ [Send ''getStatus'' None])
         (new_G2 True)))) = [(''9007199254740992'', 2 ^ 53)]"
proof -
  obtain t where
    run: "run (map_of [])
          ([ConnectBridge, SocketOpen]
           @ concat (replicate (2 ^ 53 - 1)
               [Send ''getStatus'' None, SocketClose, ConnectBridge, SocketOpen])
           @ [Send ''getStatus'' None])
          (new_G2 True)
        = t\<lparr>promises := promises t @ [Pending], idCounter := 2 ^ 53,
            pending := [(''9007199254740992'', 2 ^ 53 - 1)],
            outbox := outbox t @ [JObj [(''id'', JStr ''9007199254740992''),
                                        (''method'', JStr ''getStatus'')]]\<rparr>"
    and t: "ws t = Some OPEN" "length (promises t) = 2 ^ 53 - 1"
    using limit_run by blast
  show ?thesis
    unfolding run using t
    by (simp add: send_def Let_def js_incr_def String_nat_limit_numeral nth_append)
qed

lemma awaiting_cong:
  "idCounter t = idCounter s \<Longrightarrow> pending t = pending s \<Longrightarrow> promises t = promises s \<Longrightarrow>
   outbox t = outbox s \<Longrightarrow> awaiting K req t = awaiting K req s"
  using client_inv_cong [of t s] by (simp add: awaiting_def)

lemma awaiting_handleMessage:
  assumes a: "awaiting K req s"
    and other: "\<And>kvs. P raw = Some (JObj kvs) \<Longrightarrow> map_of kvs ''event'' = None \<Longrightarrow>
                 map_of kvs ''id'' \<noteq> Some (JStr K)"
  shows "awaiting K req (snd (handleMessage P raw s))"
proof -
  have inv: "client_inv (snd (handleMessage P raw s))"
    using a by (simp add: awaiting_def client_inv_handleMessage)
  consider (calls) c l where "snd (handleMessage P raw s) = s\<lparr>calls := c, listeners := l\<rparr>"
    | (deleted) K' req' where "K' \<noteq> K" "map_of (pending s) K' = Some req'"
        "snd (handleMessage P raw s) = s\<lparr>pending := AList.delete K' (pending s)\<rparr>"
    | (settled) K' req' v where "K' \<noteq> K" "map_of (pending s) K' = Some req'"
        "snd (handleMessage P raw s)
           = s\<lparr>pending := AList.delete K' (pending s), promises := settle req' v (promises s)\<rparr>"
  proof -
    from handleMessage_shape [of P raw s]
    consider c l where "snd (handleMessage P raw s) = s\<lparr>calls := c, listeners := l\<rparr>"
      | K' req' kvs where "P raw = Some (JObj kvs)" "map_of kvs ''event'' = None"
          "map_of kvs ''id'' = Some (JStr K')" "map_of (pending s) K' = Some req'"
          "snd (handleMessage P raw s) = s\<lparr>pending := AList.delete K' (pending s)\<rparr>
           \<or> (\<exists>v. snd (handleMessage P raw s)
                  = s\<lparr>pending := AList.delete K' (pending s),
                      promises := settle req' v (promises s)\<rparr>)"
      by blast
    then show ?thesis
    proof cases
      case 1
      then show ?thesis by (rule calls)
    next
      case 2
      from other [OF 2(1,2)] 2(3) have "K' \<noteq> K" by auto
      with 2(4,5) show ?thesis using deleted settled by blast
    qed
  qed
  then show ?thesis
  proof cases
    case calls
    then show ?thesis
      using a awaiting_cong [of "s\<lparr>calls := c, listeners := l\<rparr>" s K req] by simp
  next
    case deleted
    show ?thesis
      using a inv unfolding awaiting_def deleted(3)
      by (simp add: delete_conv')
  next
    case settled
    have "req' \<noteq> req"
      using settled(1,2) a unfolding awaiting_def by blast
    then show ?thesis
      using a inv unfolding awaiting_def settled(3)
      by (simp add: delete_conv' settle_nth)
  qed
qed

lemma awaiting_send:
  assumes a: "awaiting K req s"
  shows "awaiting K req (snd (send method params s))"
proof -
  have inv: "client_inv (snd (send method params s))"
    using a by (simp add: awaiting_def client_inv_send)
  show ?thesis
  proof (cases "ws s = Some OPEN")
    case True
    show ?thesis
      using a inv unfolding awaiting_def
      by (auto simp: send_connected [OF True] update_conv' nth_append split: if_splits)
  next
    case False
    show ?thesis
      using a inv unfolding awaiting_def
      by (auto simp: send_not_connected [OF False] nth_append)
  qed
qed

lemma awaiting_step:
  assumes a: "awaiting K req s"
    and x: "x \<noteq> SocketClose" "x \<noteq> OldSocketClose"
    and other: "\<And>raw kvs. x = SocketMessage raw \<Longrightarrow> P raw = Some (JObj kvs) \<Longrightarrow>
                 map_of kvs ''event'' = None \<Longrightarrow> map_of kvs ''id'' \<noteq> Some (JStr K)"
  shows "awaiting K req (step P x s)"
proof (cases x)
  case ConnectBridge
  then show ?thesis
    using a awaiting_cong [of "connectBridge s" s K req] by (simp add: connectBridge_def)
next
  case SocketOpen
  then show ?thesis
    using a awaiting_cong [of "s\<lparr>ws := Some OPEN\<rparr>" s K req] by simp
next
  case SocketClose
  with x show ?thesis by simp
next
  case OldSocketClose
  with x show ?thesis by simp
next
  case (SocketMessage raw)
  then show ?thesis
    using a other by (simp add: awaiting_handleMessage)
next
  case (Send m ps)
  then show ?thesis using a by (simp add: awaiting_send)
next
  case CloseBridge
  then show ?thesis
    using a awaiting_cong [of "closeBridge s" s K req] by (simp add: closeBridge_def)
next
  case (On e h)
  then show ?thesis
    using a awaiting_cong [of "on e h s" s K req] by (simp add: on_def Let_def)
next
  case (Off e h)
  then show ?thesis
    using a awaiting_cong [of "off e h s" s K req] by (simp add: off_def split: option.splits)
next
  case TimerFires
  then show ?thesis
    using a awaiting_cong [of "step P TimerFires s" s K req]
    by (simp add: reconnect_callback_def connectBridge_def Let_def)
next
  case ReconnectFailed
  then show ?thesis
    using a awaiting_cong [of "scheduleReconnect s" s K req] by simp
qed

lemma awaiting_run:
  assumes "awaiting K req s"
    and "\<forall>x \<in> set ops. x \<noteq> SocketClose \<and> x \<noteq> OldSocketClose
           \<and> (\<forall>raw kvs. x = SocketMessage raw \<and> P raw = Some (JObj kvs)
                 \<and> map_of kvs ''event'' = None \<longrightarrow> map_of kvs ''id'' \<noteq> Some (JStr K))"
  shows "awaiting K req (run P ops s)"
  using assms
proof (induction ops arbitrary: s)
  case Nil
  then show ?case by simp
next
  case (Cons x ops)
  have x: "x \<noteq> SocketClose" "x \<noteq> OldSocketClose"
    and m: "\<And>raw kvs. x = SocketMessage raw \<Longrightarrow> P raw = Some (JObj kvs) \<Longrightarrow>
                 map_of kvs ''event'' = None \<Longrightarrow> map_of kvs ''id'' \<noteq> Some (JStr K)"
    using Cons.prems(2) by simp_all
  have rest: "\<forall>x \<in> set ops. x \<noteq> SocketClose \<and> x \<noteq> OldSocketClose
           \<and> (\<forall>raw kvs. x = SocketMessage raw \<and> P raw = Some (JObj kvs)
                 \<and> map_of kvs ''event'' = None \<longrightarrow> map_of kvs ''id'' \<noteq> Some (JStr K))"
    using Cons.prems(2) by (meson list.set_intros(2))
  have "awaiting K req (step P x s)"
    using Cons.prems(1) x m by (rule awaiting_step)
  from Cons.IH [OF this rest] show ?case by simp
qed

section \<open>No timeout\<close>

text \<open>
  C3, as the code has it. \<open>send\<close> takes no timeout and no timer settles a pending
  request. After a \<open>send\<close> on an open socket, through any operations of the client
  that include neither a close event of a socket nor a message that is a JSON object
  without an \<open>event\<close> member carrying the request's \<open>id\<close> (other sends, other
  messages, listener changes, \<open>closeBridge\<close>, firings of the reconnect timer), the
  returned promise stays outstanding.
\<close>

theorem unanswered_request_stays_pending:
  assumes s: "s = run P before (new_G2 auto)"
    and "open": "ws s = Some OPEN"
    and ops: "\<forall>x \<in> set ops. x \<noteq> SocketClose \<and> x \<noteq> OldSocketClose
           \<and> (\<forall>raw kvs. x = SocketMessage raw \<and> P raw = Some (JObj kvs)
                 \<and> map_of kvs ''event'' = None \<longrightarrow>
                 map_of kvs ''id'' \<noteq> Some (JStr (String_nat (js_incr (idCounter s)))))"
  shows "promises (run P ops (snd (send method params s))) ! fst (send method params s) = Pending"
proof -
  have inv: "client_inv s"
    unfolding s by (rule client_inv_run [OF client_inv_new])
  have old: "r < length (promises s)" if "map_of (pending s) k = Some r" for k r
    using that inv unfolding client_inv_def by blast
  have "awaiting (String_nat (js_incr (idCounter s))) (fst (send method params s))
          (snd (send method params s))"
    unfolding awaiting_def
  proof (intro conjI allI impI)
    show "client_inv (snd (send method params s))" using inv by (rule client_inv_send)
    show "fst (send method params s) < length (promises (snd (send method params s)))"
      by (simp add: send_connected [OF "open"])
    show "promises (snd (send method params s)) ! fst (send method params s) = Pending"
      by (simp add: send_connected [OF "open"])
    fix k
    assume "map_of (pending (snd (send method params s))) k = Some (fst (send method params s))"
    then show "k = String_nat (js_incr (idCounter s))"
      using old [of k "length (promises s)"]
      by (auto simp: send_connected [OF "open"] update_conv' split: if_splits)
  qed
  from awaiting_run [OF this ops] show ?thesis
    by (simp add: awaiting_def)
qed

theorem unanswered_request_stays_pending_witness:
  \<open>ws (run (map_of [(''{"event":"response","data":{"raw":"0a"}}'',
                       JObj [(''event'', JStr ''response''), (''data'', JObj [(''raw'', JStr ''0a'')])]),
                      (''{"id":"7","result":{}}'', JObj [(''id'', JStr ''7''), (''result'', JObj [])])])
          [ConnectBridge, SocketOpen] (new_G2 True)) = Some OPEN
   \<and> fst (send ''getStatus'' None
        (run (map_of [(''{"event":"response","data":{"raw":"0a"}}'',
                       JObj [(''event'', JStr ''response''), (''data'', JObj [(''raw'', JStr ''0a'')])]),
                      (''{"id":"7","result":{}}'', JObj [(''id'', JStr ''7''), (''result'', JObj [])])])
          [ConnectBridge, SocketOpen] (new_G2 True))) = 0
   \<and> promises (run (map_of [(''{"event":"response","data":{"raw":"0a"}}'',
                       JObj [(''event'', JStr ''response''), (''data'', JObj [(''raw'', JStr ''0a'')])]),
                      (''{"id":"7","result":{}}'', JObj [(''id'', JStr ''7''), (''result'', JObj [])])])
        [TimerFires, SocketMessage ''{"event":"response","data":{"raw":"0a"}}'',
         SocketMessage ''{"id":"7","result":{}}'', Send ''setText'' None, On ''response'' (Handler 0 []),
         SocketMessage ''{"id":'', CloseBridge, TimerFires]
        (snd (send ''getStatus'' None
          (run (map_of [(''{"event":"response","data":{"raw":"0a"}}'',
                       JObj [(''event'', JStr ''response''), (''data'', JObj [(''raw'', JStr ''0a'')])]),
                      (''{"id":"7","result":{}}'', JObj [(''id'', JStr ''7''), (''result'', JObj [])])])
            [ConnectBridge, SocketOpen] (new_G2 True))))) ! 0 = Pending\<close>
  using unanswered_request_stays_pending
    [of \<open>run (map_of [(''{"event":"response","data":{"raw":"0a"}}'',
                       JObj [(''event'', JStr ''response''), (''data'', JObj [(''raw'', JStr ''0a'')])]),
                      (''{"id":"7","result":{}}'', JObj [(''id'', JStr ''7''), (''result'', JObj [])])])
          [ConnectBridge, SocketOpen] (new_G2 True)\<close>
        \<open>map_of [(''{"event":"response","data":{"raw":"0a"}}'',
                       JObj [(''event'', JStr ''response''), (''data'', JObj [(''raw'', JStr ''0a'')])]),
                      (''{"id":"7","result":{}}'', JObj [(''id'', JStr ''7''), (''result'', JObj [])])]\<close>
        \<open>[ConnectBridge, SocketOpen]\<close> True
        \<open>[TimerFires, SocketMessage ''{"event":"response","data":{"raw":"0a"}}'',
         SocketMessage ''{"id":"7","result":{}}'', Send ''setText'' None, On ''response'' (Handler 0 []),
         SocketMessage ''{"id":'', CloseBridge, TimerFires]\<close>
        \<open>''getStatus''\<close> None]
  by (simp add: connectBridge_def new_G2_def send_def Let_def js_incr_def String_nat_small
      digit_char_def)

text \<open>
  C3 as stated fails: a request that gets no response is still outstanding after events,
  unrelated responses and every timer the client owns have come and gone; it has no timeout
  result.
\<close>

theorem no_timeout_counterexample:
  \<open>send ''getStatus'' None (run (map_of []) [ConnectBridge, SocketOpen] (new_G2 True))
     = (0, \<lparr>ws = Some OPEN, pending = [(''1'', 0)], listeners = [], idCounter = 1, closed = False,
             reconnectTimer = False, autoReconnect = True, promises = [Pending],
             outbox = [JObj [(''id'', JStr ''1''), (''method'', JStr ''getStatus'')]], calls = []\<rparr>)
   \<and> run (map_of [(''{"event":"response","data":{"raw":"0a"}}'',
                       JObj [(''event'', JStr ''response''), (''data'', JObj [(''raw'', JStr ''0a'')])]),
                  (''{"id":"7","result":{}}'', JObj [(''id'', JStr ''7''), (''result'', JObj [])])])
        [TimerFires, SocketMessage ''{"event":"response","data":{"raw":"0a"}}'', TimerFires,
         SocketMessage ''{"id":"7","result":{}}'', TimerFires, TimerFires]
        (snd (send ''getStatus'' None (run (map_of []) [ConnectBridge, SocketOpen] (new_G2 True))))
     = \<lparr>ws = Some OPEN, pending = [(''1'', 0)], listeners = [], idCounter = 1, closed = False,
        reconnectTimer = False, autoReconnect = True, promises = [Pending],
        outbox = [JObj [(''id'', JStr ''1''), (''method'', JStr ''getStatus'')]], calls = []\<rparr>\<close>
  by (simp add: connectBridge_def new_G2_def send_def Let_def js_incr_def String_nat_small
      digit_char_def handleMessage_def emit_def handlers_of_def)
section \<open>Varint round trip\<close>

lemma sint_ToInt32: "- (2 ^ 31) \<le> x \<Longrightarrow> x < 2 ^ 31 \<Longrightarrow> sint (ToInt32 x) = x"
  by (simp add: ToInt32_def sint_sbintrunc' signed_take_bit_int_eq_self)

lemma js_and_int:
  assumes "0 \<le> a" "a < 2 ^ 31" "0 \<le> b" "b < 2 ^ 31"
  shows "js_and a b = a AND b"
proof -
  have "0 \<le> a AND b" using assms by simp
  moreover have "a AND b \<le> a" using assms by simp
  ultimately have "- (2 ^ 31) \<le> a AND b" "a AND b < 2 ^ 31"
    using assms by linarith+
  then have "sint (ToInt32 (a AND b)) = a AND b"
    by (rule sint_ToInt32)
  then show ?thesis
    by (simp add: js_and_def ToInt32_def of_int_and_eq)
qed

lemma js_or_int:
  assumes "0 \<le> a" "a < 2 ^ 31" "0 \<le> b" "b < 2 ^ 31"
  shows "js_or a b = a OR b"
proof -
  have nn: "0 \<le> a OR b" using assms by simp
  have "- (2 ^ 31) \<le> (0::int)" by simp
  from this nn have "- (2 ^ 31) \<le> a OR b" by (rule order_trans)
  moreover have "a OR b < 2 ^ 31" using OR_upper [of a 31 b] assms by simp
  ultimately have "sint (ToInt32 (a OR b)) = a OR b"
    by (rule sint_ToInt32)
  then show ?thesis
    by (simp add: js_or_def ToInt32_def of_int_or_eq)
qed

lemma js_sar_int:
  assumes "0 \<le> a" "a < 2 ^ 31" "0 \<le> n" "n < 32"
  shows "js_sar a n = a div 2 ^ nat n"
  using assms
  by (simp add: js_sar_def sint_signed_drop_bit_eq sint_ToInt32 drop_bit_eq_div)

lemma js_shl_int:
  assumes "0 \<le> a" "0 \<le> n" "n < 32" "a * 2 ^ nat n < 2 ^ 31"
  shows "js_shl a n = a * 2 ^ nat n"
proof -
  have "push_bit (nat n) (ToInt32 a) = ToInt32 (a * 2 ^ nat n)"
    by (simp add: ToInt32_def push_bit_eq_mult)
  moreover have "0 \<le> a * 2 ^ nat n" using assms by simp
  then have "- (2 ^ 31) \<le> a * 2 ^ nat n" by simp
  then have "sint (ToInt32 (a * 2 ^ nat n)) = a * 2 ^ nat n"
    using assms(4) by (rule sint_ToInt32)
  ultimately show ?thesis
    using assms by (simp add: js_shl_def)
qed

lemma and_127: "(a::int) AND 127 = a mod 128"
proof -
  have "a AND mask 7 = a mod 2 ^ 7"
    by (simp only: take_bit_eq_mask [symmetric] take_bit_eq_mod)
  then show ?thesis by (simp add: mask_eq_exp_minus_1)
qed

lemma and_7: "(a::int) AND 7 = a mod 8"
proof -
  have "a AND mask 3 = a mod 2 ^ 3"
    by (simp only: take_bit_eq_mask [symmetric] take_bit_eq_mod)
  then show ?thesis by (simp add: mask_eq_exp_minus_1)
qed

lemma or_disjoint:
  assumes "0 \<le> a" "a < 2 ^ k"
  shows "(a::int) OR c * 2 ^ k = a + c * 2 ^ k"
proof -
  have "\<not> bit a n \<or> \<not> bit (c * 2 ^ k) n" for n
  proof (cases "n < k")
    case True
    then have "\<not> bit (push_bit k c) n" by (simp add: bit_push_bit_iff)
    then show ?thesis by (simp add: push_bit_eq_mult)
  next
    case False
    then have "(2::int) ^ k \<le> 2 ^ n" by (simp add: power_increasing)
    with assms(2) have "a < 2 ^ n" by (rule less_le_trans)
    then have "\<not> bit a n"
      using assms(1) by (simp add: bit_iff_odd)
    then show ?thesis by simp
  qed
  then show ?thesis by (rule disjunctive_add [symmetric])
qed

lemma encodeVarint_small: "0 \<le> v \<Longrightarrow> v \<le> 127 \<Longrightarrow> encodeVarint v = [v]"
  by (subst encodeVarint.simps) (simp add: js_and_int and_127)

lemma encodeVarint_big:
  assumes "127 < v" "v < 2 ^ 31"
  shows "encodeVarint v = (v mod 128 + 128) # encodeVarint (v div 128)"
proof -
  have m: "js_and v 127 = v mod 128"
    using assms by (simp add: js_and_int and_127)
  have "js_or (v mod 128) 128 = (v mod 128) OR 1 * 2 ^ 7"
    by (simp add: js_or_int)
  also have "\<dots> = v mod 128 + 1 * 2 ^ 7"
    by (rule or_disjoint) simp_all
  finally have o: "js_or (v mod 128) 128 = v mod 128 + 128" by simp
  have s: "js_sar v 7 = v div 128"
    using assms by (simp add: js_sar_int)
  show ?thesis
    using assms(1) by (subst encodeVarint.simps) (simp add: m o s)
qed

lemma hex_val_digit: "d < 16 \<Longrightarrow> hex_val (digit_char d) = Some d"
proof -
  assume "d < 16"
  then have "d = 0 \<or> d = 1 \<or> d = 2 \<or> d = 3 \<or> d = 4 \<or> d = 5 \<or> d = 6 \<or> d = 7 \<or> d = 8
      \<or> d = 9 \<or> d = 10 \<or> d = 11 \<or> d = 12 \<or> d = 13 \<or> d = 14 \<or> d = 15" by arith
  then show ?thesis
    by (elim disjE) (simp_all add: hex_val_def digit_char_def)
qed

lemma hex_byte:
  assumes "0 \<le> b" "b < 256"
  shows "padStart2 (toString16 b) = [digit_char (nat b div 16), digit_char (nat b mod 16)]"
proof (cases "nat b < 16")
  case True
  then have "hex_nat (nat b) = [digit_char (nat b)]"
    by (subst hex_nat.simps) simp
  with True assms show ?thesis
    by (simp add: padStart2_def toString16_def digit_char_def)
next
  case False
  have "nat b div 16 < 16" using assms by simp
  then have "hex_nat (nat b div 16) = [digit_char (nat b div 16)]"
    by (subst hex_nat.simps) simp
  with False have "hex_nat (nat b) = [digit_char (nat b div 16), digit_char (nat b mod 16)]"
    by (subst hex_nat.simps) simp
  with assms show ?thesis
    by (simp add: padStart2_def toString16_def)
qed

lemma Buffer_from_toHex:
  "\<forall>b \<in> set bs. 0 \<le> b \<and> b < 256 \<Longrightarrow> Buffer_from_hex (toHex bs) = map nat bs"
proof (induction bs)
  case Nil
  then show ?case by (simp add: toHex_def)
next
  case (Cons b bs)
  then have b: "0 \<le> b" "b < 256" by simp_all
  then have d: "nat b div 16 < 16" "nat b mod 16 < 16" by simp_all
  have "toHex (b # bs) = digit_char (nat b div 16) # digit_char (nat b mod 16) # toHex bs"
    using hex_byte [OF b] by (simp add: toHex_def)
  then show ?case
    using Cons d by (simp add: hex_val_digit)
qed

lemma encodeVarint_bytes:
  "0 \<le> v \<Longrightarrow> v < 2 ^ 31 \<Longrightarrow> \<forall>b \<in> set (encodeVarint v). 0 \<le> b \<and> b < 256"
proof (induction v rule: encodeVarint.induct)
  case (1 v)
  show ?case
  proof (cases "127 < v")
    case True
    have s: "js_sar v 7 = v div 128"
      using True 1(2,3) by (simp add: js_sar_int)
    have "0 \<le> v div 128" using 1(2) by simp
    moreover have "v div 128 \<le> v" using 1(2) by (simp add: int_div_le_self)
    then have "v div 128 < 2 ^ 31" using 1(3) by (rule le_less_trans)
    ultimately have "\<forall>b \<in> set (encodeVarint (v div 128)). 0 \<le> b \<and> b < 256"
      using 1(1) [OF True] unfolding s by blast
    moreover have "0 \<le> v mod 128 + 128" "v mod 128 + 128 < 256"
      by simp_all
    ultimately show ?thesis
      unfolding encodeVarint_big [OF True 1(3)] by simp
  next
    case False
    then show ?thesis
      using 1(2) by (simp add: encodeVarint_small)
  qed
qed

lemma byte_at_mid: "byte_at (pre @ b # rest) (int (length pre)) = Some (int b)"
  by (simp add: byte_at_def)

lemma and_128_low: "0 \<le> b \<Longrightarrow> b < 128 \<Longrightarrow> (b::int) AND 128 = 0"
proof -
  assume "0 \<le> b" "b < 128"
  then have "\<not> bit b 7" by (simp add: bit_iff_odd)
  then have "b AND 2 ^ 7 = 0" using and_exp_eq_0_iff_not_bit [of b 7] by blast
  then show ?thesis by simp
qed

lemma and_128_high: "128 \<le> b \<Longrightarrow> b < 256 \<Longrightarrow> (b::int) AND 128 \<noteq> 0"
proof -
  assume b: "128 \<le> b" "b < 256"
  then have "b div 128 = 1" by simp
  then have "bit b 7" by (simp add: bit_iff_odd)
  then have "b AND 2 ^ 7 \<noteq> 0" by (simp only: and_exp_eq_0_iff_not_bit) simp
  then show ?thesis by simp
qed

lemma read_varint_step_last:
  assumes "0 \<le> b" "b < 128" "0 \<le> acc" "acc < 2 ^ k" "b * 2 ^ k + acc < 2 ^ 31" "k < 32"
  shows "read_varint (pre @ nat b # post) (int (length pre)) acc (int k)
           = (acc + b * 2 ^ k, int (length pre) + 1)"
proof -
  have bk: "0 \<le> b * 2 ^ k" "b * 2 ^ k < 2 ^ 31" using assms by simp_all
  have acc: "acc < 2 ^ 31" using assms(5) bk(1) by simp
  have 1: "js_and b 127 = b" using assms by (simp add: js_and_int and_127)
  have 2: "js_shl b (int k) = b * 2 ^ k" using assms bk by (simp add: js_shl_int)
  have "js_or acc (b * 2 ^ k) = acc OR b * 2 ^ k"
    using assms(3) acc bk by (rule js_or_int)
  also have "\<dots> = acc + b * 2 ^ k" using assms(3,4) by (rule or_disjoint)
  finally have 3: "js_or acc (b * 2 ^ k) = acc + b * 2 ^ k" .
  have 4: "js_and b 128 = 0" using assms by (simp add: js_and_int and_128_low)
  show ?thesis
    using assms(1)
    by (subst read_varint.simps) (simp add: byte_at_mid Let_def 1 2 3 4)
qed

lemma read_varint_step_more:
  assumes "0 \<le> m" "m < 128" "0 \<le> acc" "acc < 2 ^ k" "m * 2 ^ k + acc < 2 ^ 31" "k < 32"
  shows "read_varint (pre @ nat (m + 128) # post) (int (length pre)) acc (int k)
           = read_varint (pre @ nat (m + 128) # post) (int (length pre) + 1)
               (acc + m * 2 ^ k) (int k + 7)"
proof -
  have bk: "0 \<le> m * 2 ^ k" "m * 2 ^ k < 2 ^ 31" using assms by simp_all
  have acc: "acc < 2 ^ 31" using assms(5) bk(1) by simp
  have "js_and (m + 128) 127 = (m + 128) mod 128" using assms by (simp add: js_and_int and_127)
  then have 1: "js_and (m + 128) 127 = m" using assms by simp
  have 2: "js_shl m (int k) = m * 2 ^ k" using assms bk by (simp add: js_shl_int)
  have "js_or acc (m * 2 ^ k) = acc OR m * 2 ^ k"
    using assms(3) acc bk by (rule js_or_int)
  also have "\<dots> = acc + m * 2 ^ k" using assms(3,4) by (rule or_disjoint)
  finally have 3: "js_or acc (m * 2 ^ k) = acc + m * 2 ^ k" .
  have 4: "js_and (m + 128) 128 \<noteq> 0" using assms by (simp add: js_and_int and_128_high)
  show ?thesis
    using assms(1)
    by (subst read_varint.simps) (simp add: byte_at_mid Let_def 1 2 3 4)
qed

lemma read_varint_encoded:
  assumes "0 \<le> v" "0 \<le> acc" "acc < 2 ^ k" "v * 2 ^ k + acc < 2 ^ 31" "k < 32"
  shows "read_varint (pre @ map nat (encodeVarint v) @ post) (int (length pre)) acc (int k)
           = (acc + v * 2 ^ k, int (length pre) + int (length (encodeVarint v)))"
  using assms
proof (induction v arbitrary: pre acc k rule: encodeVarint.induct)
  case (1 v)
  have vk: "0 \<le> v * 2 ^ k" using "1.prems"(1) by simp
  have "v * 1 \<le> v * 2 ^ k"
    using "1.prems"(1) by (intro mult_left_mono) simp_all
  then have v31: "v < 2 ^ 31" using "1.prems"(2,4) by simp
  show ?case
  proof (cases "127 < v")
    case False
    then have e: "encodeVarint v = [v]" using "1.prems"(1) by (simp add: encodeVarint_small)
    have "v < 128" using False by simp
    from read_varint_step_last [OF "1.prems"(1) this "1.prems"(2,3,4,5), of pre post]
    show ?thesis by (simp add: e)
  next
    case True
    define m where "m = v mod 128"
    define d where "d = v div 128"
    have v: "v = d * 128 + m" by (simp add: m_def d_def)
    have m: "0 \<le> m" "m < 128" by (simp_all add: m_def)
    have d: "0 \<le> d" "1 \<le> d" using True "1.prems"(1) by (simp_all add: d_def)
    have e: "encodeVarint v = (m + 128) # encodeVarint d"
      using encodeVarint_big [OF True v31] by (simp add: m_def d_def)
    have s: "js_sar v 7 = d"
      using "1.prems"(1) v31 by (simp add: js_sar_int d_def)
    have split: "v * 2 ^ k = d * 2 ^ (k + 7) + m * 2 ^ k"
      by (simp add: v power_add algebra_simps)
    have mk: "m * 2 ^ k + acc < 2 ^ 31"
    proof -
      have "0 \<le> d * 2 ^ (k + 7)" using d(1) by simp
      then show ?thesis using "1.prems"(4) split by simp
    qed
    have "(2::int) ^ (k + 7) \<le> d * 2 ^ (k + 7)"
      using d(2) by (simp add: mult_le_cancel_right1)
    also have "\<dots> \<le> v * 2 ^ k" using m(1) split by simp
    also have "\<dots> < 2 ^ 31" using "1.prems"(2,4) by simp
    finally have "k + 7 < 31" by (simp only: power_strict_increasing_iff)
    then have k7: "k + 7 < 32" by simp
    have acc': "0 \<le> acc + m * 2 ^ k" using "1.prems"(2) m(1) by simp
    have "m * 2 ^ k \<le> 127 * 2 ^ k" using m(2) by simp
    with "1.prems"(3) have "acc + m * 2 ^ k < 2 ^ k + 127 * 2 ^ k" by (rule add_less_le_mono)
    also have "\<dots> = 2 ^ (k + 7)" by (simp add: power_add)
    finally have acc'': "acc + m * 2 ^ k < 2 ^ (k + 7)" .
    have tot: "d * 2 ^ (k + 7) + (acc + m * 2 ^ k) < 2 ^ 31"
      using "1.prems"(4) split by simp
    have pre': "pre @ nat (m + 128) # map nat (encodeVarint d) @ post
        = (pre @ [nat (m + 128)]) @ map nat (encodeVarint d) @ post" by simp
    have IH: "read_varint ((pre @ [nat (m + 128)]) @ map nat (encodeVarint d) @ post)
        (int (length (pre @ [nat (m + 128)]))) (acc + m * 2 ^ k) (int (k + 7))
      = (acc + m * 2 ^ k + d * 2 ^ (k + 7),
         int (length (pre @ [nat (m + 128)])) + int (length (encodeVarint d)))"
      using "1.IH" [OF True, unfolded s, OF d(1) acc' acc'' tot k7] .
    have "read_varint (pre @ map nat (encodeVarint v) @ post) (int (length pre)) acc (int k)
        = read_varint (pre @ nat (m + 128) # map nat (encodeVarint d) @ post)
            (int (length pre) + 1) (acc + m * 2 ^ k) (int k + 7)"
      using read_varint_step_more [OF m "1.prems"(2,3) mk "1.prems"(5), of pre
          "map nat (encodeVarint d) @ post"]
      by (simp add: e)
    also have "\<dots> = (acc + m * 2 ^ k + d * 2 ^ (k + 7),
         int (length (pre @ [nat (m + 128)])) + int (length (encodeVarint d)))"
      using IH unfolding pre' by (simp add: add.commute)
    finally show ?thesis
      by (simp add: e split)
  qed
qed

lemma pbVarint_bytes:
  assumes "0 \<le> f" "f < 2 ^ 28" "0 \<le> v" "v < 2 ^ 31"
  shows "pbVarint f v = (8 * f) # encodeVarint v"
proof -
  have "js_shl f 3 = f * 2 ^ nat 3"
    using assms by (intro js_shl_int) simp_all
  then have "js_shl f 3 = 8 * f" by simp
  moreover have "js_or (8 * f) 0 = 8 * f OR 0"
    using assms by (intro js_or_int) simp_all
  ultimately show ?thesis by (simp add: pbVarint_def)
qed

text \<open>
  C9. For a field number from 1 to 15 and a value from 0 to \<open>2 ^ 28 - 1\<close>,
  \<open>parseProtobuf\<close> applied to the hex encoding of \<open>pbVarint(f, v)\<close> returns exactly
  one record, with \<open>field = f\<close>, \<open>type = "varint"\<close> and \<open>value = v\<close>.
\<close>

theorem parseProtobuf_pbVarint:
  assumes "1 \<le> f" "f \<le> 15" "0 \<le> v" "v < 2 ^ 28"
  shows "parseProtobuf (toHex (pbVarint f v)) = Some (Inr [Varint f v])
     \<and> field_of (Varint f v) = f \<and> type_of (Varint f v) = ''varint''"
proof -
  have v31: "v < 2 ^ 31" using assms(4) by simp
  have pb: "pbVarint f v = (8 * f) # encodeVarint v"
    using assms v31 by (intro pbVarint_bytes) simp_all
  have "\<forall>b \<in> set (pbVarint f v). 0 \<le> b \<and> b < 256"
    using encodeVarint_bytes [OF assms(3) v31] assms(1,2) by (simp add: pb)
  then have buf: "Buffer_from_hex (toHex (pbVarint f v)) = nat (8 * f) # map nat (encodeVarint v)"
    by (simp add: Buffer_from_toHex pb)
  let ?bytes = "nat (8 * f) # map nat (encodeVarint v)"
  have tag: "operand (byte_at ?bytes 0) = 8 * f"
    using assms(1) by (simp add: byte_at_def)
  have field: "js_sar (8 * f) 3 = f"
    using assms(1,2) by (simp add: js_sar_int)
  have wire: "js_and (8 * f) 7 = 0"
    using assms(1,2) by (simp add: js_and_int and_7)
  have "read_varint ([nat (8 * f)] @ map nat (encodeVarint v) @ []) (int (length [nat (8 * f)])) 0 (int 0)
      = (0 + v * 2 ^ 0, int (length [nat (8 * f)]) + int (length (encodeVarint v)))"
    using assms(3) v31 by (intro read_varint_encoded) simp_all
  then have rv: "read_varint ?bytes 1 0 0 = (v, int (length ?bytes))"
    by simp
  have stop: "parse_loop ?bytes (int (length ?bytes)) [Varint f v] = Some (Inr [Varint f v])"
    by (subst parse_loop.simps) simp
  have "parse_loop ?bytes 0 [] = parse_loop ?bytes (int (length ?bytes)) [Varint f v]"
    by (subst parse_loop.simps) (simp add: tag field wire rv Let_def)
  with stop buf show ?thesis
    by (simp add: parseProtobuf_def)
qed

theorem parseProtobuf_pbVarint_witness:
  "(1::int) \<le> 1 \<and> (1::int) \<le> 15 \<and> (0::int) \<le> 300 \<and> (300::int) < 2 ^ 28
   \<and> pbVarint 1 300 = [8, 172, 2]
   \<and> toHex (pbVarint 1 300) = ''08ac02''
   \<and> parseProtobuf ''08ac02'' = Some (Inr [Varint 1 300])"
proof -
  have e: "encodeVarint 300 = [172, 2]"
    by (simp add: encodeVarint_big encodeVarint_small)
  have p: "pbVarint 1 300 = [8, 172, 2]"
    using pbVarint_bytes [of 1 300] by (simp add: e)
  have h: "toHex [8, 172, 2] = ''08ac02''"
    by (simp add: toHex_def hex_byte digit_char_def)
  show ?thesis
    using parseProtobuf_pbVarint [of 1 300] by (simp add: p h)
qed

section \<open>The payload of the examples\<close>

text \<open>
  The GET_DEVICE_INFO payload that \<open>main\<close> builds with \<open>pbVarint\<close>, \<open>pbBytes\<close> and
  \<open>toHex\<close> is the hex string the packet-watching example sends as a literal, and
  \<open>parseProtobuf\<close> reads it back as two varints and one length-delimited field.
\<close>

lemma encodeVarint_examples:
  "encodeVarint 0 = [0]" "encodeVarint 1 = [1]" "encodeVarint 2 = [2]"
  "encodeVarint 4 = [4]" "encodeVarint 12 = [12]"
  by (simp_all add: encodeVarint_small)

lemma device_info_payload:
  "toHex (pbVarint 1 12 @ pbVarint 2 1 @ pbBytes 11 (pbBytes 1 (pbVarint 1 0)))
     = ''080c10015a040a020800''"
  by (simp add: pbVarint_bytes pbBytes_def encodeVarint_examples js_shl_int js_or_int toHex_def
      hex_byte digit_char_def)

lemma device_info_payload_parsed:
  "parseProtobuf ''080c10015a040a020800''
     = Some (Inr [Varint 1 12, Varint 2 1, Bytes 11 ''0a020800'' None 4])"
  unfolding parseProtobuf_def
  apply (simp add: hex_val_def)
  apply (subst parse_loop.simps)
  apply (simp add: byte_at_def Let_def js_sar_def js_and_def js_or_def js_shl_def ToInt32_def
      read_varint.simps [of _ 1] read_varint.simps [of _ 2])
  apply (subst parse_loop.simps)
  apply (simp add: byte_at_def Let_def js_sar_def js_and_def js_or_def js_shl_def ToInt32_def
      read_varint.simps [of _ 3] read_varint.simps [of _ 4])
  apply (subst parse_loop.simps)
  apply (simp add: byte_at_def Let_def js_sar_def js_and_def js_or_def js_shl_def ToInt32_def
      read_varint.simps [of _ 5] read_varint.simps [of _ 6] subarray_def clamp_index_def
      data_hex_def data_string_def padStart2_def hex_nat.simps printable_def digit_char_def)
  apply (subst parse_loop.simps)
  apply simp
  done

section \<open>A length that moves the read position back\<close>

lemma bytes_loop: "Buffer_from_hex ''0afaffffff0f'' = [10, 250, 255, 255, 255, 15]"
  by (simp add: hex_val_def)

lemma read_varint_loop: "read_varint [10, 250, 255, 255, 255, 15] 1 0 0 = (- 6, 6)"
  by (simp add: read_varint.simps [of _ 1] read_varint.simps [of _ 2] read_varint.simps [of _ 3]
      read_varint.simps [of _ 4] read_varint.simps [of _ 5]
      byte_at_def Let_def js_or_def js_and_def js_shl_def ToInt32_def)

lemma parse_loop_back:
  "parse_loop [10, 250, 255, 255, 255, 15] 0 flds
     = parse_loop [10, 250, 255, 255, 255, 15] 0 (flds @ [Bytes 1 [] None (- 6)])"
  by (subst parse_loop.simps)
    (simp add: read_varint_loop byte_at_def Let_def js_sar_def js_and_def ToInt32_def
      subarray_def clamp_index_def data_hex_def data_string_def)

lemma parse_loop_never_returns:
  assumes "parse_loop bytes pos flds = Some r"
  shows "bytes = [10, 250, 255, 255, 255, 15] \<longrightarrow> pos = 0 \<longrightarrow> False"
proof (rule parse_loop.raw_induct
    [where P = "\<lambda>bytes pos flds r. bytes = [10, 250, 255, 255, 255, 15] \<longrightarrow> pos = 0 \<longrightarrow> False",
      OF _ assms],
    goal_cases)
  case (1 f bytes pos flds r)
  show ?case
  proof (intro impI)
    assume b: "bytes = [10, 250, 255, 255, 255, 15]" and p: "pos = 0"
    have "f [10, 250, 255, 255, 255, 15] 0 (flds @ [Bytes 1 [] None (- 6)]) = Some r"
      using 1(2) unfolding b p
      by (simp add: read_varint_loop byte_at_def Let_def js_sar_def js_and_def ToInt32_def
        subarray_def clamp_index_def data_hex_def data_string_def)
    from 1(1) [OF this] show False by simp
  qed
qed

text \<open>
  C10 fails on the code. In \<open>0afaffffff0f\<close> the tag \<open>0a\<close> opens a length-delimited
  field whose five-byte length decodes, in 32-bit arithmetic, to \<open>-6\<close>; \<open>pos += len\<close>
  then takes the read position from 6 back to 0, the same field is parsed again, and the
  loop never ends.
\<close>

theorem parseProtobuf_never_returns: "parseProtobuf ''0afaffffff0f'' = None"
proof (cases "parseProtobuf ''0afaffffff0f''")
  case None
  then show ?thesis .
next
  case (Some r)
  then have "parse_loop [10, 250, 255, 255, 255, 15] 0 [] = Some r"
    unfolding parseProtobuf_def bytes_loop .
  from parse_loop_never_returns [OF this] show ?thesis by simp
qed
section \<open>Fragment round trip\<close>

lemma chunks_Nil: "chunks m [] = []"
  by (subst chunks.simps) simp

lemma chunks_Cons:
  "0 < m \<Longrightarrow> xs \<noteq> [] \<Longrightarrow> chunks m xs = take m xs # chunks m (drop m xs)"
  by (subst chunks.simps) simp

lemma concat_chunks: "0 < m \<Longrightarrow> concat (chunks m xs) = xs"
proof (induction m xs rule: chunks.induct)
  case (1 m xs)
  show ?case
  proof (cases "xs = []")
    case True
    then show ?thesis by (simp add: chunks_Nil)
  next
    case False
    with 1 show ?thesis by (simp add: chunks_Cons)
  qed
qed

lemma chunk_sizes: "0 < m \<Longrightarrow> ch \<in> set (chunks m xs) \<Longrightarrow> 1 \<le> length ch \<and> length ch \<le> m"
proof (induction m xs rule: chunks.induct)
  case (1 m xs)
  show ?case
  proof (cases "xs = []")
    case True
    with 1(3) show ?thesis by (simp add: chunks_Nil)
  next
    case False
    with 1(2,3) have "ch = take m xs \<or> ch \<in> set (chunks m (drop m xs))"
      by (simp add: chunks_Cons)
    then show ?thesis
    proof
      assume "ch = take m xs"
      with False 1(2) show ?thesis
        by (cases xs) (simp_all add: Suc_le_eq)
    next
      assume "ch \<in> set (chunks m (drop m xs))"
      with 1(1) [OF _ 1(2)] False 1(2) show ?thesis by simp
    qed
  qed
qed

lemma ceil_div_step:
  assumes "0 < m" "0 < n"
  shows "ceil_div n m = Suc (ceil_div (n - m) m)"
proof (cases "m \<le> n")
  case True
  then have "n + m - 1 = (n - m + m - 1) + m" using assms by simp
  then have "(n + m - 1) div m = (n - m + m - 1) div m + 1"
    using assms(1) by (simp only: div_add_self2)
  then show ?thesis by (simp add: ceil_div_def)
next
  case False
  then have "n - m = 0" by simp
  moreover have "(n + m - 1) div m = 1"
  proof -
    have "m \<le> n + m - 1" "n + m - 1 < 2 * m" using assms False by simp_all
    then show ?thesis
      by (intro div_nat_eqI) simp_all
  qed
  ultimately show ?thesis using assms(1) by (simp add: ceil_div_def)
qed

lemma length_chunks: "0 < m \<Longrightarrow> length (chunks m xs) = ceil_div (length xs) m"
proof (induction m xs rule: chunks.induct)
  case (1 m xs)
  show ?case
  proof (cases "xs = []")
    case True
    then show ?thesis using 1(2) by (simp add: chunks_Nil ceil_div_def)
  next
    case False
    then have "0 < length xs" by simp
    from ceil_div_step [OF 1(2) this] 1(1) [OF _ 1(2)] False 1(2)
    show ?thesis by (simp add: chunks_Cons)
  qed
qed

lemma ceil_div_bounds:
  assumes "0 < m" "0 < n" "n \<le> 20 * m"
  shows "1 \<le> ceil_div n m" "ceil_div n m \<le> 20"
proof -
  show "1 \<le> ceil_div n m"
    using ceil_div_step [OF assms(1,2)] by simp
  have "n + m - 1 < 21 * m" using assms by simp
  then have "(n + m - 1) div m < 21"
    using assms(1) by (simp add: div_less_iff_less_mult)
  then show "ceil_div n m \<le> 20" by (simp add: ceil_div_def)
qed

lemma unat_byte: "n < 256 \<Longrightarrow> unat (of_nat n :: byte) = n"
  by (simp add: unat_of_nat)

lemma byte_eq: "i < 256 \<Longrightarrow> j < 256 \<Longrightarrow> (of_nat i :: byte) = of_nat j \<longleftrightarrow> i = j"
  by (metis unat_byte)

lemma checksum_bytes:
  "of_nat (unat (of_nat (unat w mod 256) :: byte) + 256 * unat (of_nat (unat w div 256) :: byte)) = w"
  for w :: "16 word"
proof -
  have "unat w < 65536" using unsigned_less [of w, where 'a = nat] by simp
  then have "unat w div 256 < 256" by simp
  then have "unat (of_nat (unat w mod 256) :: byte) + 256 * unat (of_nat (unat w div 256) :: byte)
      = unat w"
    by (simp add: unat_byte)
  then show ?thesis by simp
qed

lemma frame_bytes_checksum [simp]: "frame_bytes (f\<lparr>checksum := x\<rparr>) = frame_bytes f"
  by (simp add: frame_bytes_def)

lemma length_packet: "length (packet f) = length (payload f) + 10"
  by (simp add: packet_def frame_bytes_def)

lemma packet_index: "packet f ! 5 = fragment_index f"
  by (simp add: packet_def frame_bytes_def)

lemma make_frame_fields [simp]:
  "sequence (make_frame c svc seq i tot ch) = seq"
  "fragment_index (make_frame c svc seq i tot ch) = of_nat i"
  "fragment_total (make_frame c svc seq i tot ch) = of_nat tot"
  "service_major (make_frame c svc seq i tot ch) = fst svc"
  "service_minor (make_frame c svc seq i tot ch) = snd svc"
  "payload (make_frame c svc seq i tot ch) = ch"
  by (simp_all add: make_frame_def Let_def)

lemma make_frame_checksum:
  "checksum (make_frame c svc seq i tot ch)
     = checksum_of c (frame_bytes (make_frame c svc seq i tot ch))"
  by (simp add: make_frame_def Let_def frame_bytes_def)

lemma decode_packet:
  assumes i: "1 \<le> i" "i \<le> tot" "tot \<le> 20"
    and len: "unat (min_len c) \<le> length ch + 2" "length ch + 2 \<le> unat (max_len c)"
  shows "decode c (packet (make_frame c svc seq i tot ch)) = Inr (make_frame c svc seq i tot ch)"
proof -
  define f where "f = make_frame c svc seq i tot ch"
  define bs where "bs = packet f"
  define l :: byte where "l = of_nat (length ch + 2)"
  define lo :: byte where "lo = of_nat (unat (checksum f) mod 256)"
  define hi :: byte where "hi = of_nat (unat (checksum f) div 256)"
  have "unat (max_len c) < 256" using unsigned_less [of "max_len c", where 'a = nat] by simp
  then have small: "length ch + 2 < 256" using len(2) by simp
  have ulen: "unat l = length ch + 2" unfolding l_def using small by (rule unat_byte)
  have fb: "frame_bytes f = [0xAA, 0x21, seq, l, of_nat tot, of_nat i, fst svc, snd svc] @ ch"
    by (simp add: frame_bytes_def f_def l_def)
  have bs: "bs = [0xAA, 0x21, seq, l, of_nat tot, of_nat i, fst svc, snd svc] @ ch @ [lo, hi]"
    by (simp add: bs_def packet_def fb lo_def hi_def)
  have lbs: "length bs = length ch + 10" by (simp add: bs)
  have at3: "bs ! 3 = l" by (simp add: bs)
  have range: "\<not> l < min_len c" "\<not> max_len c < l" "\<not> unat l < 2"
    "\<not> length bs < unat l + 8" "\<not> length bs < 8"
    using len by (simp_all add: word_less_nat_alt ulen lbs)
  have n: "unat l - 2 = length ch" by (simp add: ulen)
  have fields: "bs ! 2 = seq" "bs ! 5 = of_nat i" "bs ! 4 = of_nat tot"
    "bs ! 6 = fst svc" "bs ! 7 = snd svc"
    by (simp_all add: bs)
  have pl: "take (length ch) (drop 8 bs) = ch" by (simp add: bs)
  have pre: "take (8 + length ch) bs = frame_bytes f"
  proof -
    have "length (frame_bytes f) = 8 + length ch" by (simp add: fb)
    moreover have "bs = frame_bytes f @ [lo, hi]" by (simp add: bs fb)
    ultimately show ?thesis by (metis append_eq_conv_conj)
  qed
  have c1: "bs ! (8 + length ch) = lo"
    by (simp add: bs nth_append)
  have c2: "bs ! (9 + length ch) = hi"
    by (simp add: bs nth_append)
  have ck: "of_nat (unat (bs ! (8 + length ch)) + 256 * unat (bs ! (9 + length ch)))
      = checksum f"
    unfolding c1 c2 lo_def hi_def by (rule checksum_bytes)
  have ui: "unat (of_nat i :: byte) = i" "unat (of_nat tot :: byte) = tot"
    using i by (simp_all add: unat_byte)
  have seqs: "\<not> (of_nat tot :: byte) < 1" "\<not> 20 < (of_nat tot :: byte)"
    "\<not> (of_nat i :: byte) < 1" "\<not> (of_nat tot :: byte) < of_nat i"
    using i by (simp_all add: word_less_nat_alt ui)
  have frame: "\<lparr>sequence = seq, fragment_index = of_nat i, fragment_total = of_nat tot,
       service_major = fst svc, service_minor = snd svc, payload = ch,
       checksum = checksum f\<rparr> = f"
    by (simp add: f_def make_frame_def Let_def)
  have ok: "checksum f = checksum_of c (frame_bytes f)"
    unfolding f_def by (rule make_frame_checksum)
  have ff: "fragment_total f = of_nat tot" "fragment_index f = of_nat i"
    by (simp_all add: f_def)
  have "decode c bs = Inr f"
    unfolding decode_def Let_def at3 n fields pl pre ck
    using range seqs frame ok by (simp add: ff)
  then show ?thesis by (simp add: bs_def f_def)
qed

lemma frames_from_length [simp]: "length (frames_from c svc seq tot i chs) = length chs"
  by (induction chs arbitrary: seq i) simp_all

lemma frames_from_member:
  "f \<in> set (frames_from c svc seq tot i chs) \<Longrightarrow>
   \<exists>j ch q. i \<le> j \<and> j < i + length chs \<and> ch \<in> set chs \<and> f = make_frame c svc q j tot ch"
proof (induction chs arbitrary: seq i)
  case Nil
  then show ?case by simp
next
  case (Cons ch chs)
  from Cons.prems have "f = make_frame c svc seq i tot ch
      \<or> f \<in> set (frames_from c svc (seq + 1) tot (i + 1) chs)"
    by simp
  then show ?case
  proof
    assume "f = make_frame c svc seq i tot ch"
    then show ?thesis by (intro exI [of _ i] exI [of _ ch] exI [of _ seq]) simp
  next
    assume "f \<in> set (frames_from c svc (seq + 1) tot (i + 1) chs)"
    from Cons.IH [OF this] obtain j ch' q where
      "i + 1 \<le> j" "j < i + 1 + length chs" "ch' \<in> set chs" "f = make_frame c svc q j tot ch'"
      by blast
    then show ?thesis by (intro exI [of _ j] exI [of _ ch'] exI [of _ q]) simp
  qed
qed

lemma frames_from_chunk:
  "ch \<in> set chs \<Longrightarrow> \<exists>f \<in> set (frames_from c svc seq tot i chs). payload f = ch"
proof (induction chs arbitrary: seq i)
  case Nil
  then show ?case by simp
next
  case (Cons x chs)
  show ?case
  proof (cases "ch = x")
    case True
    then show ?thesis by simp
  next
    case False
    with Cons.prems have "ch \<in> set chs" by simp
    from Cons.IH [OF this, of "seq + 1" "i + 1"] show ?thesis by auto
  qed
qed

lemma later_packet_differs:
  assumes "f \<in> set (frames_from c svc seq tot (i + 1) chs)" "i + length chs \<le> 20"
  shows "packet f \<noteq> packet (make_frame c svc q i tot ch)"
proof -
  obtain j ch' q' where j: "i + 1 \<le> j" "j < i + 1 + length chs" "f = make_frame c svc q' j tot ch'"
    using frames_from_member [OF assms(1)] by blast
  then have "j < 256" "i < 256" "i \<noteq> j" using assms(2) by simp_all
  then have "(of_nat j :: byte) \<noteq> of_nat i" by (simp add: byte_eq)
  then have "packet f ! 5 \<noteq> packet (make_frame c svc q i tot ch) ! 5"
    by (simp add: packet_index j(3))
  then show ?thesis by auto
qed

lemma assemble_rest:
  assumes "rest \<noteq> []" "i + length rest = Suc tot" "2 \<le> i" "tot \<le> 20"
    and "in_progress r = Some \<lparr>next_index = of_nat i, expected_total = of_nat tot,
                                 asm_service = svc, collected = acc\<rparr>"
    and "\<forall>f \<in> set (frames_from c svc seq tot i rest). packet f \<notin> set (seen r)"
    and "\<forall>ch \<in> set rest. unat (min_len c) \<le> length ch + 2 \<and> length ch + 2 \<le> unat (max_len c)"
  shows "assemble_all c (map packet (frames_from c svc seq tot i rest)) r
           = [\<lparr>service = svc, body = acc @ concat rest\<rparr>]"
  using assms
proof (induction rest arbitrary: i seq r acc)
  case Nil
  then show ?case by simp
next
  case (Cons ch rest)
  define f where "f = make_frame c svc seq i tot ch"
  have i: "1 \<le> i" "i \<le> tot" "i < 256" "tot < 256"
    using Cons.prems(2,3,4) by simp_all
  have idx: "fragment_index f = of_nat i" "fragment_total f = of_nat tot" "payload f = ch"
    by (simp_all add: f_def)
  have w: "(of_nat i :: byte) \<noteq> 0" "(of_nat i :: byte) \<noteq> 1"
    "\<not> (of_nat tot :: byte) < of_nat i"
    using i Cons.prems(3) byte_eq [of i 0] byte_eq [of i 1]
    by (simp_all add: word_less_nat_alt unat_byte)
  have dec: "decode c (packet f) = Inr f"
    unfolding f_def using i(1,2) Cons.prems(4,7) by (intro decode_packet) simp_all
  have fresh: "packet f \<notin> set (seen r)"
    using Cons.prems(6) by (simp add: f_def)
  show ?case
  proof (cases "rest = []")
    case True
    then have "i = tot" using Cons.prems(2) by simp
    then have "feed f r =
        (Inr (Some \<lparr>service = svc, body = acc @ ch\<rparr>),
         r\<lparr>seen := packet f # seen r, in_progress := None\<rparr>)"
      using w fresh Cons.prems(5) by (simp add: feed_def Let_def idx)
    then show ?thesis
      using True dec by (simp add: f_def [symmetric])
  next
    case False
    then have lt: "i \<noteq> tot" using Cons.prems(2) by (cases rest) simp_all
    then have ne: "(of_nat i :: byte) \<noteq> of_nat tot" using i by (simp add: byte_eq)
    define r' where "r' = r\<lparr>seen := packet f # seen r,
        in_progress := Some \<lparr>next_index = of_nat (i + 1), expected_total = of_nat tot,
                               asm_service = svc, collected = acc @ ch\<rparr>\<rparr>"
    have fd: "feed f r = (Inr None, r')"
      using w ne fresh Cons.prems(5) by (simp add: feed_def Let_def idx r'_def)
    have "assemble_all c (map packet (frames_from c svc (seq + 1) tot (i + 1) rest)) r'
        = [\<lparr>service = svc, body = (acc @ ch) @ concat rest\<rparr>]"
    proof (rule Cons.IH [OF False])
      show "i + 1 + length rest = Suc tot" using Cons.prems(2) by simp
      show "2 \<le> i + 1" using Cons.prems(3) by simp
      show "tot \<le> 20" by (rule Cons.prems(4))
      show "in_progress r' = Some \<lparr>next_index = of_nat (i + 1), expected_total = of_nat tot,
                                 asm_service = svc, collected = acc @ ch\<rparr>"
        by (simp add: r'_def)
      show "\<forall>g \<in> set (frames_from c svc (seq + 1) tot (i + 1) rest). packet g \<notin> set (seen r')"
      proof
        fix g
        assume g: "g \<in> set (frames_from c svc (seq + 1) tot (i + 1) rest)"
        have "i + length rest \<le> 20" using Cons.prems(2,4) by simp
        from later_packet_differs [OF g this] have "packet g \<noteq> packet f"
          by (simp add: f_def)
        moreover have "packet g \<notin> set (seen r)" using Cons.prems(6) g by simp
        ultimately show "packet g \<notin> set (seen r')" by (simp add: r'_def)
      qed
      show "\<forall>ch \<in> set rest. unat (min_len c) \<le> length ch + 2 \<and> length ch + 2 \<le> unat (max_len c)"
        using Cons.prems(7) by simp
    qed
    then show ?thesis
      using dec fd by (simp add: f_def [symmetric])
  qed
qed

lemma assemble_frames:
  assumes "chs \<noteq> []" "length chs \<le> 20"
    and "\<forall>f \<in> set (frames_from c svc seq (length chs) 1 chs). packet f \<notin> set (seen r)"
    and "\<forall>ch \<in> set chs. unat (min_len c) \<le> length ch + 2 \<and> length ch + 2 \<le> unat (max_len c)"
  shows "assemble_all c (map packet (frames_from c svc seq (length chs) 1 chs)) r
           = [\<lparr>service = svc, body = concat chs\<rparr>]"
proof -
  obtain ch rest where chs: "chs = ch # rest" using assms(1) by (cases chs) auto
  define tot where "tot = length chs"
  define f where "f = make_frame c svc seq 1 tot ch"
  have tot: "1 \<le> tot" "tot \<le> 20" "tot = Suc (length rest)"
    using assms(2) by (simp_all add: tot_def chs)
  have idx: "fragment_index f = 1" "fragment_total f = of_nat tot" "payload f = ch"
    "service_major f = fst svc" "service_minor f = snd svc"
    by (simp_all add: f_def)
  have w: "\<not> (of_nat tot :: byte) < 1"
    using tot(1,2) by (simp add: word_less_nat_alt unat_byte)
  have dec: "decode c (packet f) = Inr f"
    unfolding f_def using tot(1,2) assms(4) by (intro decode_packet) (simp_all add: chs)
  have fresh: "packet f \<notin> set (seen r)"
    using assms(3) by (simp add: f_def chs tot_def)
  have frames: "frames_from c svc seq tot 1 chs = f # frames_from c svc (seq + 1) tot 2 rest"
    by (simp add: chs f_def numeral_2_eq_2)
  show ?thesis
  proof (cases "rest = []")
    case True
    then have "(of_nat tot :: byte) = 1" using tot(3) by simp
    then have "feed f r =
        (Inr (Some \<lparr>service = svc, body = ch\<rparr>), r\<lparr>seen := packet f # seen r, in_progress := None\<rparr>)"
      using fresh by (simp add: feed_def Let_def idx)
    then show ?thesis
      unfolding tot_def [symmetric] frames using dec True by (simp add: chs)
  next
    case False
    then have "tot \<noteq> 1" using tot(3) by simp
    then have ne: "(of_nat tot :: byte) \<noteq> 1" using tot(2) byte_eq [of tot 1] by simp
    define r' where "r' = r\<lparr>seen := packet f # seen r,
        in_progress := Some \<lparr>next_index = of_nat 2, expected_total = of_nat tot,
                               asm_service = svc, collected = ch\<rparr>\<rparr>"
    have fd: "feed f r = (Inr None, r')"
      using w ne fresh by (simp add: feed_def Let_def idx r'_def)
    have "assemble_all c (map packet (frames_from c svc (seq + 1) tot 2 rest)) r'
        = [\<lparr>service = svc, body = ch @ concat rest\<rparr>]"
    proof (rule assemble_rest [OF False])
      show "2 + length rest = Suc tot" by (simp add: tot(3))
      show "(2::nat) \<le> 2" by simp
      show "tot \<le> 20" by (rule tot(2))
      show "in_progress r' = Some \<lparr>next_index = of_nat 2, expected_total = of_nat tot,
                                 asm_service = svc, collected = ch\<rparr>"
        by (simp add: r'_def)
      show "\<forall>g \<in> set (frames_from c svc (seq + 1) tot 2 rest). packet g \<notin> set (seen r')"
      proof
        fix g
        assume g: "g \<in> set (frames_from c svc (seq + 1) tot 2 rest)"
        then have g': "g \<in> set (frames_from c svc (seq + 1) tot (1 + 1) rest)"
          by (simp add: numeral_2_eq_2)
        have "1 + length rest \<le> 20" using tot(2,3) by simp
        from later_packet_differs [OF g' this] have "packet g \<noteq> packet f"
          by (simp add: f_def)
        moreover have "packet g \<notin> set (seen r)"
          using assms(3) g unfolding tot_def [symmetric] frames by simp
        ultimately show "packet g \<notin> set (seen r')" by (simp add: r'_def)
      qed
      show "\<forall>ch \<in> set rest. unat (min_len c) \<le> length ch + 2 \<and> length ch + 2 \<le> unat (max_len c)"
        using assms(4) by (simp add: chs)
    qed
    then show ?thesis
      unfolding tot_def [symmetric] frames using dec fd by (simp add: chs)
  qed
qed

text \<open>
  C7, as the specified codec has it. Let \<open>P\<close> be a payload that is not empty and
  \<open>max_fragment_payload\<close> be at least 1, such that \<open>P\<close> needs at most 20 fragments,
  the total length of every encoded frame is in the range the decoder accepts, and the
  receiving reassembler has seen none of the frames before. Then encoding \<open>P\<close>, writing
  each frame as a packet, and decoding and reassembling the packets yields exactly one
  message, whose body is \<open>P\<close>. The encoder produces \<open>ceil(len(P)/max_fragment_payload)\<close>
  frames, each carrying that count as its \<open>fragment_total\<close> and a chunk no larger than
  \<open>max_fragment_payload\<close>, and the decoder returns each frame from its packet.
\<close>

theorem round_trip_within_limits:
  assumes "1 \<le> m" "P \<noteq> []" "ceil_div (length P) m \<le> 20"
    and "\<forall>f \<in> set (encode c svc seq P m).
           min_frame_length c \<le> length (packet f) \<and> length (packet f) \<le> max_frame_length c"
    and "\<forall>f \<in> set (encode c svc seq P m). packet f \<notin> set (seen r)"
  shows "round_trip c r svc seq P m = [\<lparr>service = svc, body = P\<rparr>]
     \<and> length (encode c svc seq P m) = ceil_div (length P) m
     \<and> (\<forall>f \<in> set (encode c svc seq P m).
           length (payload f) \<le> m \<and> unat (fragment_total f) = ceil_div (length P) m
           \<and> decode c (packet f) = Inr f)"
proof -
  have m: "0 < m" using assms(1) by simp
  let ?chs = "chunks m P"
  have len: "length ?chs = ceil_div (length P) m" by (rule length_chunks [OF m])
  have ne: "?chs \<noteq> []"
    using assms(2) m by (simp add: chunks_Cons)
  have le: "length ?chs \<le> 20"
    using assms(3) len by simp
  have enc: "encode c svc seq P m = frames_from c svc seq (length ?chs) 1 ?chs"
    by (simp add: encode_def len)
  have sizes: "\<forall>ch \<in> set ?chs. unat (min_len c) \<le> length ch + 2
                 \<and> length ch + 2 \<le> unat (max_len c)"
  proof
    fix ch
    assume "ch \<in> set ?chs"
    then obtain f where "f \<in> set (encode c svc seq P m)" "payload f = ch"
      using frames_from_chunk unfolding enc by blast
    with assms(4) show "unat (min_len c) \<le> length ch + 2 \<and> length ch + 2 \<le> unat (max_len c)"
      by (auto simp: length_packet min_frame_length_def max_frame_length_def)
  qed
  have fresh: "\<forall>f \<in> set (frames_from c svc seq (length ?chs) 1 ?chs). packet f \<notin> set (seen r)"
    using assms(5) by (simp add: enc)
  have "round_trip c r svc seq P m = [\<lparr>service = svc, body = concat ?chs\<rparr>]"
    unfolding round_trip_def enc by (rule assemble_frames [OF ne le fresh sizes])
  then have 1: "round_trip c r svc seq P m = [\<lparr>service = svc, body = P\<rparr>]"
    by (simp add: concat_chunks [OF m])
  have 2: "length (encode c svc seq P m) = ceil_div (length P) m"
    by (simp add: enc len)
  have 3: "length (payload f) \<le> m \<and> unat (fragment_total f) = ceil_div (length P) m
           \<and> decode c (packet f) = Inr f"
    if mem: "f \<in> set (encode c svc seq P m)" for f
  proof -
    obtain j ch q where j: "1 \<le> j" "j < 1 + length ?chs" "ch \<in> set ?chs"
      "f = make_frame c svc q j (length ?chs) ch"
      using frames_from_member [of f c svc seq "length ?chs" 1 ?chs] mem unfolding enc by blast
    have "length ch \<le> m" using chunk_sizes [OF m j(3)] by simp
    moreover have "unat (of_nat (length ?chs) :: byte) = length ?chs"
      using le by (simp add: unat_byte)
    moreover have "decode c (packet f) = Inr f"
      unfolding j(4) using j(1,2,3) le sizes by (intro decode_packet) simp_all
    ultimately show ?thesis by (simp add: j(4) len)
  qed
  from 1 2 3 show ?thesis by blast
qed

lemma chunks_one: "chunks (Suc 0) (x # xs) = [x] # chunks (Suc 0) xs"
  by (simp add: chunks_Cons)

theorem round_trip_within_limits_witness:
  "(1::nat) \<le> 2 \<and> [8, 12, 16, 1, 90] \<noteq> ([]::byte list)
   \<and> ceil_div (length [8, 12, 16, 1, 90::byte]) 2 = 3
   \<and> min_frame_length notes_codec = 10 \<and> max_frame_length notes_codec = 208
   \<and> map packet (encode notes_codec (0x0A, 0x20) 255 [8, 12, 16, 1, 90] 2)
       = [[0xAA, 0x21, 255, 4, 3, 1, 0x0A, 0x20, 8, 12, 16, 2],
          [0xAA, 0x21, 0, 4, 3, 2, 0x0A, 0x20, 16, 1, 15, 1],
          [0xAA, 0x21, 1, 3, 3, 3, 0x0A, 0x20, 90, 89, 1]]
   \<and> round_trip notes_codec
        \<lparr>in_progress = Some \<lparr>next_index = 2, expected_total = 3, asm_service = (1, 0x20),
                               collected = [7]\<rparr>,
          seen = [[0xAA, 0x21, 254, 3, 3, 1, 1, 0x20, 7, 248, 1]]\<rparr>
        (0x0A, 0x20) 255 [8, 12, 16, 1, 90] 2
       = [\<lparr>service = (0x0A, 0x20), body = [8, 12, 16, 1, 90]\<rparr>]"
  using round_trip_within_limits
    [of 2 "[8, 12, 16, 1, 90]" notes_codec "(0x0A, 0x20)" 255
        "\<lparr>in_progress = Some \<lparr>next_index = 2, expected_total = 3, asm_service = (1, 0x20),
                               collected = [7]\<rparr>,
          seen = [[0xAA, 0x21, 254, 3, 3, 1, 1, 0x20, 7, 248, 1]]\<rparr>"]
  by (simp add: encode_def chunks_Cons chunks_Nil ceil_div_def make_frame_def Let_def
      packet_def frame_bytes_def notes_codec_def sum16_def min_frame_length_def
      max_frame_length_def new_reassembler_def)

lemma chunks_whole: "0 < length xs \<Longrightarrow> length xs \<le> m \<Longrightarrow> chunks m xs = [xs]"
  by (subst chunks.simps) (cases xs; auto simp: chunks_Nil)

text \<open>
  C7 as stated fails on the specified codec, with the length byte in \<open>2-200\<close>. A
  payload of 21 bytes with \<open>max_fragment_payload = 1\<close> is encoded into 21 frames with
  \<open>fragment_total = 21\<close>, each of which the decoder rejects as out of sequence range, so
  no message is assembled; the empty payload is encoded into no frame at all; a payload
  of 199 bytes in one fragment gives a frame that the decoder rejects for its length;
  and a reassembler that has seen the packet of a one-fragment message drops it as a
  duplicate.
\<close>

theorem round_trip_limits_counterexample:
  "map fragment_total
     (encode notes_codec (0x0A, 0x20) 0
        [1, 2, 3, 4, 5, 6, 7, 8, 9, 10, 11, 12, 13, 14, 15, 16, 17, 18, 19, 20, 21] 1)
     = [21, 21, 21, 21, 21, 21, 21, 21, 21, 21, 21, 21, 21, 21, 21, 21, 21, 21, 21, 21, 21]
   \<and> set (map (decode notes_codec) (map packet
     (encode notes_codec (0x0A, 0x20) 0
        [1, 2, 3, 4, 5, 6, 7, 8, 9, 10, 11, 12, 13, 14, 15, 16, 17, 18, 19, 20, 21] 1)))
     = {Inl SequenceOutOfRange}
   \<and> round_trip notes_codec new_reassembler (0x0A, 0x20) 0
        [1, 2, 3, 4, 5, 6, 7, 8, 9, 10, 11, 12, 13, 14, 15, 16, 17, 18, 19, 20, 21] 1 = []
   \<and> encode notes_codec (0x0A, 0x20) 0 [] 1 = []
   \<and> round_trip notes_codec new_reassembler (0x0A, 0x20) 0 [] 1 = []
   \<and> map (decode notes_codec) (map packet
        (encode notes_codec (0x0A, 0x20) 0 (replicate 199 0) 199)) = [Inl LengthOutOfRange]
   \<and> round_trip notes_codec new_reassembler (0x0A, 0x20) 0 (replicate 199 0) 199 = []
   \<and> map packet (encode notes_codec (0x0A, 0x20) 0 [1, 2, 3] 3)
        = [[0xAA, 0x21, 0, 5, 1, 1, 0x0A, 0x20, 1, 2, 3, 0x02, 1]]
   \<and> round_trip notes_codec
        \<lparr>in_progress = None, seen = [[0xAA, 0x21, 0, 5, 1, 1, 0x0A, 0x20, 1, 2, 3, 0x02, 1]]\<rparr>
        (0x0A, 0x20) 0 [1, 2, 3] 3 = []"
  by (simp add: round_trip_def encode_def chunks_one chunks_Nil chunks_whole ceil_div_def
      make_frame_def Let_def decode_def packet_def frame_bytes_def notes_codec_def sum16_def
      feed_def new_reassembler_def)

end
